theory Spec2Isabelle
  imports Main "HOL-Library.Word"
begin

unbundle bit_operations_syntax

section \<open>SquashFS metadata reader and inode decoder (src/squashfs.cxx)\<close>

text \<open>
  A shallow embedding of \<^verbatim>\<open>src/src/squashfs.cxx\<close>: the layout helpers
  (\<^verbatim>\<open>symlink::inode_size\<close>, \<^verbatim>\<open>reg::block_count\<close>, ...), the buffered
  \<^verbatim>\<open>MetadataReader\<close> and \<^verbatim>\<open>InodeReader::read\<close>.

  Conventions.
  \<^item> \<^verbatim>\<open>size_t\<close> is a 64-bit word, \<^verbatim>\<open>uint32_t\<close>/\<^verbatim>\<open>le32\<close> a 32-bit word,
    \<^verbatim>\<open>uint16_t\<close>/\<^verbatim>\<open>le16\<close> a 16-bit word; multi-byte fields are little-endian.
  \<^item> A pointer into \<^verbatim>\<open>buf\<close> is its offset from \<^verbatim>\<open>buf\<close> (a natural number).
  \<^item> A member function is a state transformer returning its outcome and the object
    as the call leaves it: \<open>Inr\<close> a returned value, \<open>Inl\<close> an error. A C++
    exception leaves the object as it was when thrown, so the state is returned in
    both cases.
  \<^item> Behaviour the C++ standard leaves undefined (a \<^verbatim>\<open>memcpy\<close> whose regions
    overlap, an access outside \<^verbatim>\<open>buf\<close>) is an error value of its own; the model
    stops there and promises nothing afterwards.
\<close>

type_synonym byte = "8 word"
type_synonym le16 = "16 word"
type_synonym le32 = "32 word"
type_synonym le64 = "64 word"
type_synonym size_t = "64 word"

datatype error =
    Past_last_inode      \<comment> \<open>\<^verbatim>\<open>runtime_error("Trying to read past last inode")\<close>\<close>
  | Invalid_inode_type   \<comment> \<open>\<^verbatim>\<open>runtime_error("Invalid inode type")\<close>\<close>
  | Truncated_input      \<comment> \<open>the mapped file cannot supply the bytes asked for\<close>
  | Decompress_failed    \<comment> \<open>the decompression backend reports failure\<close>
  | Undefined_overlap    \<comment> \<open>undefined: \<^verbatim>\<open>memcpy\<close> on overlapping regions\<close>
  | Undefined_overrun    \<comment> \<open>undefined: access outside \<^verbatim>\<open>buf\<close>\<close>
  | Undefined_uninit     \<comment> \<open>undefined: \<^verbatim>\<open>inode_len\<close> used uninitialised\<close>

type_synonym ('s, 'a) prog = "'s \<Rightarrow> (error + 'a) \<times> 's"

definition return :: "'a \<Rightarrow> ('s, 'a) prog" where
  "return x = (\<lambda>s. (Inr x, s))"

definition throw :: "error \<Rightarrow> ('s, 'a) prog" where
  "throw e = (\<lambda>s. (Inl e, s))"

definition bindE :: "('s, 'a) prog \<Rightarrow> ('a \<Rightarrow> ('s, 'b) prog) \<Rightarrow> ('s, 'b) prog" where
  "bindE m k = (\<lambda>s. case m s of (Inl e, s') \<Rightarrow> (Inl e, s') | (Inr x, s') \<Rightarrow> k x s')"

subsection \<open>Little-endian fields\<close>

fun le_nat :: "byte list \<Rightarrow> nat" where
  "le_nat [] = 0"
| "le_nat (b # bs) = unat b + 256 * le_nat bs"

definition to_le16 :: "byte list \<Rightarrow> le16" where
  "to_le16 bs = of_nat (le_nat (take 2 bs))"

definition to_le32 :: "byte list \<Rightarrow> le32" where
  "to_le32 bs = of_nat (le_nat (take 4 bs))"

definition to_le64 :: "byte list \<Rightarrow> le64" where
  "to_le64 bs = of_nat (le_nat (take 8 bs))"

subsection \<open>The mapped file and the decompression backend\<close>

text \<open>
  Modelled from the spec: \<^verbatim>\<open>MMAPFile\<close> is not under src/. The spec (section 6) gives
  \<^verbatim>\<open>read<T>()\<close> (reads one little-endian scalar and advances) and
  \<^verbatim>\<open>read_array<T>(count)\<close> (a view of \<open>count\<close> elements, and advances); a file
  that cannot supply the bytes is a fatal error (section 7). The file is the list
  of bytes from its current position on.
\<close>

type_synonym MMAPFile = "byte list"

definition mmap_read_le16 :: "MMAPFile \<Rightarrow> (le16 \<times> MMAPFile) option" where
  "mmap_read_le16 fl = (if 2 \<le> length fl then Some (to_le16 fl, drop 2 fl) else None)"

definition mmap_read_array :: "nat \<Rightarrow> MMAPFile \<Rightarrow> (byte list \<times> MMAPFile) option" where
  "mmap_read_array n fl = (if n \<le> length fl then Some (take n fl, drop n fl) else None)"

text \<open>
  Modelled from the spec: \<^verbatim>\<open>Compressor::decompress(dst, src, src_len, max_dst_len)\<close>
  is not under src/. The backend is a function from the compressed bytes and the
  output bound to the bytes it writes, or \<open>None\<close> when it fails.
\<close>

type_synonym Compressor = "byte list \<Rightarrow> nat \<Rightarrow> byte list option"

subsection \<open>Constants and structure sizes of squashfs.hxx\<close>

text \<open>
  The header \<^verbatim>\<open>squashfs.hxx\<close> is not under src/, so what the code takes from it
  is a parameter: the logical block size \<^verbatim>\<open>metadata_size\<close>, the sentinel
  \<^verbatim>\<open>invalid_frag\<close>, the \<^verbatim>\<open>sizeof\<close> of each structure and the offsets of the
  fields the decoder reads.
\<close>

record layout =
  metadata_size :: nat
  invalid_frag :: le32
  sz_base :: nat
  sz_dir :: nat
  sz_reg :: nat
  sz_symlink :: nat
  sz_dev :: nat
  sz_ipc :: nat
  sz_ldir :: nat
  sz_lreg :: nat
  sz_ldev :: nat
  sz_lipc :: nat
  sz_dir_index :: nat
  off_inode_type :: nat
  off_symlink_size :: nat
  off_reg_fragment :: nat
  off_reg_file_size :: nat
  off_lreg_file_size :: nat
  off_lreg_fragment :: nat
  off_ldir_i_count :: nat
  off_idx_size :: nat

text \<open>The SquashFS 4.0 on-disk layout, used for the concrete instances.\<close>

definition squashfs4 :: layout where
  "squashfs4 = \<lparr> metadata_size = 8192, invalid_frag = 0xFFFFFFFF,
     sz_base = 16, sz_dir = 32, sz_reg = 32, sz_symlink = 24, sz_dev = 24, sz_ipc = 20,
     sz_ldir = 40, sz_lreg = 56, sz_ldev = 28, sz_lipc = 24, sz_dir_index = 12,
     off_inode_type = 0, off_symlink_size = 20, off_reg_fragment = 20,
     off_reg_file_size = 28, off_lreg_file_size = 24, off_lreg_fragment = 44,
     off_ldir_i_count = 32, off_idx_size = 8 \<rparr>"

text \<open>
  Modelled from the spec: the flag \<^verbatim>\<open>squashfs::inode_size::uncompressed\<close> is the
  high bit of the 16-bit block header (section 3), and the type tags are numbered
  in the order the spec lists them, the extended variants after the basic ones.
\<close>

definition uncompressed :: le16 where
  "uncompressed = 0x8000"

definition type_dir :: le16 where "type_dir = 1"
definition type_reg :: le16 where "type_reg = 2"
definition type_symlink :: le16 where "type_symlink = 3"
definition type_blkdev :: le16 where "type_blkdev = 4"
definition type_chrdev :: le16 where "type_chrdev = 5"
definition type_fifo :: le16 where "type_fifo = 6"
definition type_socket :: le16 where "type_socket = 7"
definition type_ldir :: le16 where "type_ldir = 8"
definition type_lreg :: le16 where "type_lreg = 9"
definition type_lsymlink :: le16 where "type_lsymlink = 10"
definition type_lblkdev :: le16 where "type_lblkdev = 11"
definition type_lchrdev :: le16 where "type_lchrdev = 12"
definition type_lfifo :: le16 where "type_lfifo = 13"
definition type_lsocket :: le16 where "type_lsocket = 14"

subsection \<open>Layout helpers (lines 34-92)\<close>

text \<open>\<^verbatim>\<open>symlink::inode_size\<close>: \<^verbatim>\<open>sizeof(*this) + symlink_size\<close>, in \<^verbatim>\<open>size_t\<close>.\<close>

definition symlink_inode_size :: "layout \<Rightarrow> le32 \<Rightarrow> size_t" where
  "symlink_inode_size L symlink_size = of_nat (sz_symlink L) + ucast symlink_size"

text \<open>
  \<^verbatim>\<open>reg::block_count\<close>: all arithmetic in \<^verbatim>\<open>uint32_t\<close>. A shift by the width or
  more is undefined in C++; \<open>drop_bit\<close> gives 0 there.
\<close>

definition reg_block_count :: "layout \<Rightarrow> le32 \<Rightarrow> le32 \<Rightarrow> 32 word \<Rightarrow> 16 word \<Rightarrow> 32 word" where
  "reg_block_count L file_size fragment block_size block_log =
     (let blocks = file_size;
          blocks = (if fragment = invalid_frag L then blocks + (block_size - 1) else blocks)
      in drop_bit (unat block_log) blocks)"

definition reg_inode_size :: "layout \<Rightarrow> le32 \<Rightarrow> le32 \<Rightarrow> 32 word \<Rightarrow> 16 word \<Rightarrow> size_t" where
  "reg_inode_size L file_size fragment block_size block_log =
     (let blocks = reg_block_count L file_size fragment block_size block_log
      in of_nat (sz_reg L) + ucast blocks * 4)"

definition lreg_inode_size :: "layout \<Rightarrow> le64 \<Rightarrow> le32 \<Rightarrow> 32 word \<Rightarrow> 16 word \<Rightarrow> size_t" where
  "lreg_inode_size L file_size fragment block_size block_log =
     (let blocks = file_size;
          blocks = (if fragment = invalid_frag L then blocks + ucast (block_size - 1) else blocks);
          blocks = drop_bit (unat block_log) blocks
      in of_nat (sz_lreg L) + 2 * blocks * 2)"

subsection \<open>MetadataReader (lines 94-147)\<close>

text \<open>
  The members of \<^verbatim>\<open>MetadataReader\<close>. \<open>buf\<close> is the contents of the array
  \<^verbatim>\<open>char buf[]\<close>, whose capacity is twice \<^verbatim>\<open>metadata_size\<close> (spec, section 4.1:
  the buffer holds two logical blocks; the code calls \<^verbatim>\<open>metadata_size\<close> "half
  buffer"). Indices from the capacity on are outside the array.
\<close>

record MetadataReader =
  f :: MMAPFile
  compressor :: Compressor
  buf :: "nat \<Rightarrow> byte"
  bufp :: nat
  buf_filled :: size_t

definition capacity :: "layout \<Rightarrow> nat" where
  "capacity L = 2 * metadata_size L"

text \<open>Two regions of \<open>n\<close> bytes starting at \<open>dst\<close> and \<open>src\<close> share a byte.\<close>

definition overlap :: "nat \<Rightarrow> nat \<Rightarrow> nat \<Rightarrow> bool" where
  "overlap dst src n = (0 < n \<and> dst < src + n \<and> src < dst + n)"

text \<open>Line 109: \<^verbatim>\<open>writep - buf > squashfs::metadata_size\<close>, with \<^verbatim>\<open>writep = bufp + buf_filled\<close>.\<close>

definition past_half :: "layout \<Rightarrow> MetadataReader \<Rightarrow> bool" where
  "past_half L r = (metadata_size L < bufp r + unat (buf_filled r))"

text \<open>Lines 109-116: \<^verbatim>\<open>memcpy(buf, bufp, buf_filled); bufp = buf;\<close> when past half.\<close>

definition shift_buffer :: "layout \<Rightarrow> (MetadataReader, unit) prog" where
  "shift_buffer L r =
     (if past_half L r then
        (let n = unat (buf_filled r) in
         if capacity L < bufp r + n then (Inl Undefined_overrun, r)
         else if overlap 0 (bufp r) n then (Inl Undefined_overlap, r)
         else (Inr (), r\<lparr> buf := (\<lambda>i. if i < n then buf r (bufp r + i) else buf r i),
                          bufp := 0 \<rparr>))
      else (Inr (), r))"

text \<open>
  Writing \<open>data\<close> at \<^verbatim>\<open>writep\<close> and \<^verbatim>\<open>buf_filled += \<close> its length (lines 122-123
  and 130-131).
\<close>

definition store :: "layout \<Rightarrow> nat \<Rightarrow> byte list \<Rightarrow> (MetadataReader, unit) prog" where
  "store L writep data r =
     (if capacity L < writep + length data then (Inl Undefined_overrun, r)
      else (Inr (), r\<lparr> buf := (\<lambda>i. if writep \<le> i \<and> i < writep + length data
                                    then data ! (i - writep) else buf r i),
                       buf_filled := buf_filled r + of_nat (length data) \<rparr>))"

definition poll_data :: "layout \<Rightarrow> (MetadataReader, unit) prog" where
  "poll_data L r =
     (case mmap_read_le16 (f r) of
        None \<Rightarrow> (Inl Truncated_input, r)
      | Some (len, f1) \<Rightarrow>
         (case shift_buffer L (r\<lparr> f := f1 \<rparr>) of
            (Inl e, r1) \<Rightarrow> (Inl e, r1)
          | (Inr _, r1) \<Rightarrow>
             (let writep = bufp r1 + unat (buf_filled r1) in
              if len AND uncompressed \<noteq> 0 then
                (let len = len AND NOT uncompressed in
                 case mmap_read_array (unat len) (f r1) of
                   None \<Rightarrow> (Inl Truncated_input, r1)
                 | Some (data, f2) \<Rightarrow> store L writep data (r1\<lparr> f := f2 \<rparr>))
              else
                (case mmap_read_array (unat len) (f r1) of
                   None \<Rightarrow> (Inl Truncated_input, r1)
                 | Some (src, f2) \<Rightarrow>
                    (case compressor r1 src (metadata_size L) of
                       None \<Rightarrow> (Inl Decompress_failed, r1\<lparr> f := f2 \<rparr>)
                     | Some out \<Rightarrow> store L writep out (r1\<lparr> f := f2 \<rparr>))))))"

text \<open>
  \<^verbatim>\<open>peek\<close>: \<^verbatim>\<open>while (buf_filled < length) poll_data(); return bufp;\<close>. Every pull
  consumes the two header bytes of the file, so the loop ends: with the pointer, or
  with the error of a pull.
\<close>

function peek :: "layout \<Rightarrow> size_t \<Rightarrow> (MetadataReader, nat) prog" where
  "peek L len r =
     (if buf_filled r < len then
        (case poll_data L r of
           (Inl e, r') \<Rightarrow> (Inl e, r')
         | (Inr _, r') \<Rightarrow> peek L len r')
      else (Inr (bufp r), r))"
  by pat_completeness auto
termination
proof (relation "measure (\<lambda>(L, len, r). length (f r))")
  show "wf (measure (\<lambda>(L, len, r). length (f r)))"
    by simp
next
  fix L :: layout and len :: size_t and r x y x2
  assume "buf_filled r < len" and "(x, y) = poll_data L r" and "x = Inr x2"
  then have "poll_data L r = (Inr x2, y)"
    by simp
  then have "length (f y) < length (f r)"
    by (auto simp: poll_data_def mmap_read_le16_def mmap_read_array_def shift_buffer_def
        store_def Let_def split: option.splits if_splits prod.splits sum.splits)
  then show "((L, len, y), (L, len, r)) \<in> measure (\<lambda>(L, len, r). length (f r))"
    by simp
qed

declare peek.simps [simp del]

text \<open>\<^verbatim>\<open>seek\<close>: \<^verbatim>\<open>bufp += length; buf_filled -= length;\<close>.\<close>

definition seek :: "size_t \<Rightarrow> (MetadataReader, unit) prog" where
  "seek len r = (Inr (), r\<lparr> bufp := bufp r + unat len, buf_filled := buf_filled r - len \<rparr>)"

text \<open>
  The constructor (lines 94-101): the file is positioned at \<^verbatim>\<open>inode_table_start\<close>,
  the cursor at the origin of the buffer, which holds no valid byte. \<open>mem\<close> is
  whatever the uninitialised array contains.
\<close>

definition MetadataReader_new :: "MMAPFile \<Rightarrow> nat \<Rightarrow> Compressor \<Rightarrow> (nat \<Rightarrow> byte) \<Rightarrow> MetadataReader" where
  "MetadataReader_new new_file inode_table_start c mem =
     \<lparr> f = drop inode_table_start new_file, compressor = c, buf = mem, bufp = 0, buf_filled = 0 \<rparr>"

subsection \<open>InodeReader (lines 149-280)\<close>

text \<open>
  The members of \<^verbatim>\<open>InodeReader\<close>; \<open>reader\<close> is the member \<^verbatim>\<open>f\<close>, the
  \<^verbatim>\<open>MetadataReader\<close>. The counters are 32-bit, as the superblock's count is.
\<close>

record InodeReader =
  reader :: MetadataReader
  inode_num :: "32 word"
  no_inodes :: "32 word"
  block_size :: "32 word"
  block_log :: "16 word"

definition InodeReader_new ::
  "MMAPFile \<Rightarrow> nat \<Rightarrow> 32 word \<Rightarrow> 32 word \<Rightarrow> 16 word \<Rightarrow> Compressor \<Rightarrow> (nat \<Rightarrow> byte) \<Rightarrow> InodeReader" where
  "InodeReader_new new_file inode_table_start sb_inodes sb_block_size sb_block_log c mem =
     \<lparr> reader = MetadataReader_new new_file inode_table_start c mem,
       inode_num = 0, no_inodes = sb_inodes,
       block_size = sb_block_size, block_log = sb_block_log \<rparr>"

text \<open>
  Reading a field through a typed pointer: the \<open>w\<close> bytes of \<open>buf\<close> from offset
  \<open>p\<close>. Outside the array the read is undefined.
\<close>

definition fetch :: "layout \<Rightarrow> nat \<Rightarrow> nat \<Rightarrow> (MetadataReader, byte list) prog" where
  "fetch L p w r =
     (if capacity L < p + w then (Inl Undefined_overrun, r)
      else (Inr (map (buf r) [p ..< p + w]), r))"

definition fetch16 :: "layout \<Rightarrow> nat \<Rightarrow> (MetadataReader, le16) prog" where
  "fetch16 L p = bindE (fetch L p 2) (\<lambda>bs. return (to_le16 bs))"

definition fetch32 :: "layout \<Rightarrow> nat \<Rightarrow> (MetadataReader, le32) prog" where
  "fetch32 L p = bindE (fetch L p 4) (\<lambda>bs. return (to_le32 bs))"

definition fetch64 :: "layout \<Rightarrow> nat \<Rightarrow> (MetadataReader, le64) prog" where
  "fetch64 L p = bindE (fetch L p 8) (\<lambda>bs. return (to_le64 bs))"

text \<open>
  The first \<^verbatim>\<open>switch\<close> (lines 169-203): the structure size of the type tag;
  \<open>None\<close> when no \<^verbatim>\<open>case\<close> matches and \<^verbatim>\<open>inode_len\<close> stays uninitialised.
\<close>

definition fixed_size :: "layout \<Rightarrow> le16 \<Rightarrow> nat option" where
  "fixed_size L ty =
     (if ty = type_dir then Some (sz_dir L)
      else if ty = type_reg then Some (sz_reg L)
      else if ty = type_symlink \<or> ty = type_lsymlink then Some (sz_symlink L)
      else if ty = type_blkdev \<or> ty = type_chrdev then Some (sz_dev L)
      else if ty = type_fifo \<or> ty = type_socket then Some (sz_ipc L)
      else if ty = type_ldir then Some (sz_ldir L)
      else if ty = type_lreg then Some (sz_lreg L)
      else if ty = type_lblkdev \<or> ty = type_lchrdev then Some (sz_ldev L)
      else if ty = type_lfifo \<or> ty = type_lsocket then Some (sz_lipc L)
      else None)"

text \<open>
  The second \<^verbatim>\<open>switch\<close> (lines 211-247), on the tag read again through the
  pointer the second \<^verbatim>\<open>peek\<close> returned: the length of the inodes with dynamic
  sizes.
\<close>

definition dynamic_size ::
  "layout \<Rightarrow> 32 word \<Rightarrow> 16 word \<Rightarrow> nat \<Rightarrow> size_t \<Rightarrow> (MetadataReader, size_t) prog" where
  "dynamic_size L bsize blog ret inode_len =
     bindE (fetch16 L (ret + off_inode_type L)) (\<lambda>ty.
       if ty = type_reg then
         bindE (fetch32 L (ret + off_reg_file_size L)) (\<lambda>file_size.
         bindE (fetch32 L (ret + off_reg_fragment L)) (\<lambda>fragment.
           return (reg_inode_size L file_size fragment bsize blog)))
       else if ty = type_symlink \<or> ty = type_lsymlink then
         bindE (fetch32 L (ret + off_symlink_size L)) (\<lambda>symlink_size.
           return (symlink_inode_size L symlink_size))
       else if ty = type_lreg then
         bindE (fetch64 L (ret + off_lreg_file_size L)) (\<lambda>file_size.
         bindE (fetch32 L (ret + off_lreg_fragment L)) (\<lambda>fragment.
           return (lreg_inode_size L file_size fragment bsize blog)))
       else if ty = type_ldir then
         bindE (fetch16 L (ret + off_ldir_i_count L)) (\<lambda>i_count.
           return (inode_len + ucast i_count * of_nat (sz_dir_index L)))
       else return inode_len)"

text \<open>
  The loop over the directory indexes (lines 258-272). Its variables are
  \<open>(i, offset, inode_len, ret)\<close>. \<open>ldir_cond\<close> is the test \<^verbatim>\<open>i < in2->i_count\<close>,
  the count read through the current pointer; \<open>ldir_body\<close> is one pass:
  \<^verbatim>\<open>inode_len += idx->size + 1; offset += idx->size + 1 + sizeof(dir_index);
  ret = f.peek(inode_len); ++i\<close>, where \<^verbatim>\<open>idx->size + 1\<close> is 32-bit arithmetic.
\<close>

type_synonym ldir_vars = "nat \<times> size_t \<times> size_t \<times> nat"

definition ldir_cond :: "layout \<Rightarrow> ldir_vars \<Rightarrow> (MetadataReader, bool) prog" where
  "ldir_cond L v =
     (case v of (i, offset, inode_len, ret) \<Rightarrow>
        bindE (fetch16 L (ret + off_ldir_i_count L)) (\<lambda>i_count. return (i < unat i_count)))"

definition ldir_body :: "layout \<Rightarrow> ldir_vars \<Rightarrow> (MetadataReader, ldir_vars) prog" where
  "ldir_body L v =
     (case v of (i, offset, inode_len, ret) \<Rightarrow>
        bindE (fetch32 L (ret + unat offset + off_idx_size L)) (\<lambda>size.
          let inode_len' = inode_len + ucast (size + 1);
              offset' = offset + (ucast (size + 1) + of_nat (sz_dir_index L))
          in bindE (peek L inode_len') (\<lambda>ret'. return (i + 1, offset', inode_len', ret'))))"

function ldir_loop :: "layout \<Rightarrow> ldir_vars \<Rightarrow> (MetadataReader, ldir_vars) prog" where
  "ldir_loop L v r =
     (case ldir_cond L v r of
        (Inl e, r') \<Rightarrow> (Inl e, r')
      | (Inr False, r') \<Rightarrow> (Inr v, r')
      | (Inr True, r') \<Rightarrow>
         (case ldir_body L v r' of
            (Inl e, r'') \<Rightarrow> (Inl e, r'')
          | (Inr v', r'') \<Rightarrow> ldir_loop L v' r''))"
  by pat_completeness auto
termination
proof (relation "measure (\<lambda>(L, v, r). 65536 - fst v)")
  show "wf (measure (\<lambda>(L, v, r). 65536 - fst v))"
    by simp
next
  fix L :: layout and v :: ldir_vars and r x y x2 xa ya x2a
  assume c: "(x, y) = ldir_cond L v r" "x = Inr x2" "x2 = True"
    and b: "(xa, ya) = ldir_body L v y" "xa = Inr x2a"
  have "unat w < 65536" for w :: le16
    using unsigned_less [of w, where 'a = nat] by simp
  with c have "fst v < 65536"
    by (auto simp: ldir_cond_def bindE_def return_def fetch16_def fetch_def
        split: prod.splits if_splits sum.splits intro: less_trans)
  moreover from b have "fst x2a = fst v + 1"
    by (auto simp: ldir_body_def bindE_def return_def Let_def
        split: prod.splits if_splits sum.splits)
  ultimately show "((L, x2a, ya), (L, v, r)) \<in> measure (\<lambda>(L, v, r). 65536 - fst v)"
    by simp
qed

declare ldir_loop.simps [simp del]

text \<open>
  Lines 163-273 of \<^verbatim>\<open>InodeReader::read\<close>: the discovery of the inode's length.
  The result is the pointer \<^verbatim>\<open>ret\<close> of the last \<^verbatim>\<open>peek\<close> and \<^verbatim>\<open>inode_len\<close>.
\<close>

definition scan_inode :: "layout \<Rightarrow> 32 word \<Rightarrow> 16 word \<Rightarrow> (MetadataReader, nat \<times> size_t) prog" where
  "scan_inode L bsize blog =
     bindE (peek L (of_nat (sz_base L))) (\<lambda>ret.
     bindE (fetch16 L (ret + off_inode_type L)) (\<lambda>ty.
       let fixed = fixed_size L ty in
       if ty = 0 \<or> type_lsocket < ty then throw Invalid_inode_type
       else (case fixed of
          None \<Rightarrow> throw Undefined_uninit
        | Some n \<Rightarrow>
           bindE (peek L (of_nat n)) (\<lambda>ret.
           bindE (dynamic_size L bsize blog ret (of_nat n)) (\<lambda>inode_len.
           bindE (peek L inode_len) (\<lambda>ret.
           bindE (fetch16 L (ret + off_inode_type L)) (\<lambda>ty.
             if ty = type_ldir then
               bindE (ldir_loop L (0, of_nat (sz_ldir L), inode_len, ret))
                 (\<lambda>(i, offset, inode_len, ret). return (ret, inode_len))
             else return (ret, inode_len))))))))"

text \<open>
  Lines 164-249 on their own: \<^verbatim>\<open>read()\<close> from its first \<^verbatim>\<open>peek\<close> to the \<^verbatim>\<open>peek\<close> of
  the length found in the structure, which is the state in which the test
  \<^verbatim>\<open>in->inode_type == ldir\<close> of line 252 is made and the loop of line 259 is
  entered. The result is the pointer \<^verbatim>\<open>ret\<close> and \<^verbatim>\<open>inode_len\<close>.
\<close>

definition scan_sized :: "layout \<Rightarrow> 32 word \<Rightarrow> 16 word \<Rightarrow> (MetadataReader, nat \<times> size_t) prog" where
  "scan_sized L bsize blog =
     bindE (peek L (of_nat (sz_base L))) (\<lambda>ret.
     bindE (fetch16 L (ret + off_inode_type L)) (\<lambda>ty.
       let fixed = fixed_size L ty in
       if ty = 0 \<or> type_lsocket < ty then throw Invalid_inode_type
       else (case fixed of
          None \<Rightarrow> throw Undefined_uninit
        | Some n \<Rightarrow>
           bindE (peek L (of_nat n)) (\<lambda>ret.
           bindE (dynamic_size L bsize blog ret (of_nat n)) (\<lambda>inode_len.
           bindE (peek L inode_len) (\<lambda>ret. return (ret, inode_len)))))))"

text \<open>
  \<^verbatim>\<open>InodeReader::read\<close>: the bound check of lines 160-161, the discovery of the
  length, then \<^verbatim>\<open>f.seek(inode_len); ++inode_num; return *ret\<close> (lines 275-279).
  The result is the offset of the returned inode in \<open>buf\<close>.
\<close>

definition read :: "layout \<Rightarrow> (InodeReader, nat) prog" where
  "read L d =
     (if no_inodes d + 1 \<le> inode_num d then (Inl Past_last_inode, d)
      else
        (case scan_inode L (block_size d) (block_log d) (reader d) of
           (Inl e, r) \<Rightarrow> (Inl e, d\<lparr> reader := r \<rparr>)
         | (Inr (ret, inode_len), r) \<Rightarrow>
            (case seek inode_len r of
               (Inl e, r') \<Rightarrow> (Inl e, d\<lparr> reader := r' \<rparr>)
             | (Inr _, r') \<Rightarrow> (Inr ret, d\<lparr> reader := r', inode_num := inode_num d + 1 \<rparr>))))"

subsection \<open>The logical stream\<close>

text \<open>
  The bytes the remaining stored blocks of the file decode to, up to the first
  block that cannot be read or decompressed: a 16-bit header whose high bit flags
  a raw payload and whose other bits give the stored length, then the payload.
\<close>

function pending :: "Compressor \<Rightarrow> nat \<Rightarrow> MMAPFile \<Rightarrow> byte list" where
  "pending c ms fl =
     (case mmap_read_le16 fl of
        None \<Rightarrow> []
      | Some (len, f1) \<Rightarrow>
         if len AND uncompressed \<noteq> 0 then
           (case mmap_read_array (unat (len AND NOT uncompressed)) f1 of
              None \<Rightarrow> []
            | Some (data, f2) \<Rightarrow> data @ pending c ms f2)
         else
           (case mmap_read_array (unat len) f1 of
              None \<Rightarrow> []
            | Some (src, f2) \<Rightarrow>
               (case c src ms of None \<Rightarrow> [] | Some out \<Rightarrow> out @ pending c ms f2)))"
  by pat_completeness auto
termination
  by (relation "measure (\<lambda>(c, ms, fl). length fl)")
    (auto simp: mmap_read_le16_def mmap_read_array_def split: if_splits)

declare pending.simps [simp del]

text \<open>The valid bytes at the cursor, and the \<open>n\<close> bytes seen through a pointer \<open>p\<close>.\<close>

definition buffered :: "MetadataReader \<Rightarrow> byte list" where
  "buffered r = map (buf r) [bufp r ..< bufp r + unat (buf_filled r)]"

definition view :: "MetadataReader \<Rightarrow> nat \<Rightarrow> nat \<Rightarrow> byte list" where
  "view r p n = map (buf r) [p ..< p + n]"

text \<open>The logical stream from the cursor on: the buffered bytes, then the pending ones.\<close>

definition stream :: "layout \<Rightarrow> MetadataReader \<Rightarrow> byte list" where
  "stream L r = buffered r @ pending (compressor r) (metadata_size L) (f r)"

text \<open>The invariant of the reader: the valid bytes lie inside the buffer.\<close>

definition reader_inv :: "layout \<Rightarrow> MetadataReader \<Rightarrow> bool" where
  "reader_inv L r = (bufp r + unat (buf_filled r) \<le> capacity L)"

subsection \<open>The directory-index loop, iteration by iteration\<close>

text \<open>
  The state \<open>(variables, reader)\<close> in which pass \<open>k\<close> of the loop of lines 259-272
  begins, counting from 0: the state the loop is entered in, then the state each
  pass leaves when the test \<^verbatim>\<open>i < in2->i_count\<close> held before it. \<open>None\<close> when the
  loop does not get that far.
\<close>

fun ldir_iter ::
  "layout \<Rightarrow> nat \<Rightarrow> ldir_vars \<Rightarrow> MetadataReader \<Rightarrow> (ldir_vars \<times> MetadataReader) option" where
  "ldir_iter L 0 v r = Some (v, r)"
| "ldir_iter L (Suc k) v r =
     (case ldir_iter L k v r of
        None \<Rightarrow> None
      | Some (v1, r1) \<Rightarrow>
         (case ldir_cond L v1 r1 of
            (Inr True, r2) \<Rightarrow>
              (case ldir_body L v1 r2 of
                 (Inr v', r') \<Rightarrow> Some (v', r')
               | (Inl e, r') \<Rightarrow> None)
          | (Inr False, r2) \<Rightarrow> None
          | (Inl e, r2) \<Rightarrow> None))"

text \<open>
  The spec's description of the index chain (section 3), read off a byte stream
  \<open>bs\<close>: \<open>k\<close> entries from offset \<open>off\<close> on, each a fixed sub-header holding the
  size field, followed by a name of \<open>size + 1\<close> bytes. \<open>ldir_sizes\<close> lists the size
  fields, \<open>ldir_total\<close> is the length of the record the spec gives: the fixed
  header plus, for each entry, the sub-header and \<open>size + 1\<close> name bytes.
\<close>

fun ldir_sizes :: "layout \<Rightarrow> byte list \<Rightarrow> nat \<Rightarrow> nat \<Rightarrow> le32 list" where
  "ldir_sizes L bs 0 off = []"
| "ldir_sizes L bs (Suc k) off =
     (let s = to_le32 (drop (off + off_idx_size L) bs)
      in s # ldir_sizes L bs k (off + sz_dir_index L + unat s + 1))"

definition ldir_total :: "layout \<Rightarrow> le32 list \<Rightarrow> nat" where
  "ldir_total L sizes = sz_ldir L + sum_list (map (\<lambda>s. sz_dir_index L + (unat s + 1)) sizes)"

text \<open>
  What the proofs about the decoder need of the parameters: the buffer is far
  smaller than the address space, and the fields read lie inside their
  structures.
\<close>

definition layout_ok :: "layout \<Rightarrow> bool" where
  "layout_ok L =
     (capacity L < 2 ^ 63 \<and> sz_ldir L + 65536 * sz_dir_index L < 2 ^ 64
      \<and> off_inode_type L + 2 \<le> sz_base L \<and> sz_base L \<le> sz_ldir L
      \<and> off_ldir_i_count L + 2 \<le> sz_ldir L \<and> off_idx_size L + 4 \<le> sz_dir_index L)"

text \<open>
  The invariant of the loop, for a stream \<open>S\<close> and an entry count \<open>n\<close>: the
  pointer is the cursor, the reader is sound and still shows \<open>S\<close>, the length
  found so far has been peeked, and it exceeds \<open>offset\<close>, which is past the fixed
  header, by the sub-headers of the entries not yet visited.
\<close>

definition ldir_inv :: "layout \<Rightarrow> byte list \<Rightarrow> nat \<Rightarrow> ldir_vars \<Rightarrow> MetadataReader \<Rightarrow> bool" where
  "ldir_inv L S n v r =
     (case v of (i, offset, inode_len, ret) \<Rightarrow>
        ret = bufp r \<and> reader_inv L r \<and> stream L r = S \<and> inode_len \<le> buf_filled r
        \<and> i \<le> n \<and> sz_ldir L \<le> unat offset
        \<and> unat inode_len = unat offset + (n - i) * sz_dir_index L)"

section \<open>Concrete readers and decoders\<close>

text \<open>
  The instances the properties below are run on. Their blocks are raw (the high
  bit of the header is set), their decompression backend always fails, and the
  array \<^verbatim>\<open>buf\<close> starts out as zeros.
\<close>

text \<open>One raw block of four bytes.\<close>

definition demo_block :: "byte list" where
  "demo_block = [4, 0x80, 10, 11, 12, 13]"

definition demo_reader :: MetadataReader where
  "demo_reader = MetadataReader_new demo_block 0 (\<lambda>src n. None) (\<lambda>i. 0)"

text \<open>Two raw blocks, of two and three bytes.\<close>

definition demo_blocks2 :: "byte list" where
  "demo_blocks2 = [2, 0x80, 10, 11, 3, 0x80, 12, 13, 14]"

definition demo_reader2 :: MetadataReader where
  "demo_reader2 = MetadataReader_new demo_blocks2 0 (\<lambda>src n. None) (\<lambda>i. 0)"

text \<open>
  Four raw blocks of \<^verbatim>\<open>metadata_size\<close> bytes, and a run over them that only
  seeks what it has peeked: records of 8192, 8188 and 100 bytes are consumed, the
  third after a peek of 8196 bytes that compacts the buffer and pulls the third
  block. \<open>overlap_reader\<close> is the reader the run leaves.
\<close>

definition raw_block :: "byte list" where
  "raw_block = [0x00, 0xA0] @ replicate 8192 0"

definition four_blocks :: MetadataReader where
  "four_blocks =
     MetadataReader_new (raw_block @ raw_block @ raw_block @ raw_block) 0
       (\<lambda>src n. None) (\<lambda>i. 0)"

definition overlap_run :: "(MetadataReader, nat) prog" where
  "overlap_run =
     bindE (peek squashfs4 8192) (\<lambda>_.
     bindE (seek 8192) (\<lambda>_.
     bindE (peek squashfs4 4) (\<lambda>_.
     bindE (seek 8188) (\<lambda>_.
     bindE (peek squashfs4 8196) (\<lambda>_.
     bindE (seek 100) (\<lambda>_. return 0))))))"

definition overlap_reader :: MetadataReader where
  "overlap_reader = snd (overlap_run four_blocks)"

text \<open>Four valid bytes left at the end of the buffer, and a raw block of one byte.\<close>

definition drained_reader :: MetadataReader where
  "drained_reader = \<lparr> f = [1, 0x80, 7], compressor = (\<lambda>src n. None), buf = (\<lambda>i. 0),
     bufp = 16380, buf_filled = 4 \<rparr>"

text \<open>A reader with no valid byte and an empty file.\<close>

definition empty_reader :: MetadataReader where
  "empty_reader = MetadataReader_new [] 0 (\<lambda>src n. None) (\<lambda>i. 0)"

text \<open>A record whose tag is 15, one more than \<^verbatim>\<open>lsocket\<close>.\<close>

definition bad_tag_record :: "byte list" where
  "bad_tag_record = [15, 0, 0xA4, 0x81, 0, 0, 0, 0, 1, 2, 3, 4, 1, 0, 0, 0]"

definition bad_tag_decoder :: InodeReader where
  "bad_tag_decoder =
     InodeReader_new ([16, 0x80] @ bad_tag_record) 0 1 131072 17 (\<lambda>src n. None) (\<lambda>i. 0)"

text \<open>
  A table declared to hold one inode, followed in the stream by further bytes
  (here a second fifo record).
\<close>

definition fifo_record :: "byte list" where
  "fifo_record = [6, 0, 0xA4, 0x81, 0, 0, 0, 0, 1, 2, 3, 4, 1, 0, 0, 0, 1, 0, 0, 0]"

definition one_inode_decoder :: InodeReader where
  "one_inode_decoder =
     InodeReader_new ([40, 0x80] @ fifo_record @ fifo_record) 0 1 131072 17 (\<lambda>src n. None) (\<lambda>i. 0)"

text \<open>
  An extended directory with \<^verbatim>\<open>i_count = 3\<close> and index entries of sizes 0, 1 and
  200: a record of \<open>40 + 3 * 12 + 1 + 2 + 201 = 280\<close> bytes. \<open>ldir_decoder\<close> finds
  it in the file; \<open>ldir_entry\<close> is the reader as lines 164-249 of \<^verbatim>\<open>read()\<close> leave it.
\<close>

definition ldir_record :: "byte list" where
  "ldir_record =
     [8, 0, 0xED, 0x41, 0, 0, 0, 0, 1, 2, 3, 4, 2, 0, 0, 0,
      2, 0, 0, 0, 0, 1, 0, 0, 0, 0, 0, 0, 1, 0, 0, 0, 3, 0, 0, 0, 0xFF, 0xFF, 0xFF, 0xFF]
     @ [0, 0, 0, 0, 0, 0, 0, 0, 0, 0, 0, 0] @ [97]
     @ [0, 0, 0, 0, 0, 0, 0, 0, 1, 0, 0, 0] @ [97, 98]
     @ [0, 0, 0, 0, 0, 0, 0, 0, 200, 0, 0, 0] @ replicate 201 99"

definition ldir_decoder :: InodeReader where
  "ldir_decoder =
     InodeReader_new ([0x18, 0x81] @ ldir_record) 0 1 131072 17 (\<lambda>src n. None) (\<lambda>i. 0)"

definition ldir_entry :: MetadataReader where
  "ldir_entry = snd (scan_sized squashfs4 131072 17 (reader ldir_decoder))"

text \<open>
  An extended directory with one index entry whose size field is \<open>2 ^ 32 - 1\<close>,
  and no name bytes behind it: a record of \<open>40 + 12\<close> bytes.
\<close>

definition wrap_record :: "byte list" where
  "wrap_record =
     [8, 0, 0xED, 0x41, 0, 0, 0, 0, 1, 2, 3, 4, 2, 0, 0, 0,
      2, 0, 0, 0, 0, 1, 0, 0, 0, 0, 0, 0, 1, 0, 0, 0, 1, 0, 0, 0, 0xFF, 0xFF, 0xFF, 0xFF]
     @ [0, 0, 0, 0, 0, 0, 0, 0, 0xFF, 0xFF, 0xFF, 0xFF]"

definition wrap_decoder :: InodeReader where
  "wrap_decoder =
     InodeReader_new ([52, 0x80] @ wrap_record) 0 1 131072 17 (\<lambda>src n. None) (\<lambda>i. 0)"

section \<open>Properties\<close>

text \<open>The definitions a concrete run unfolds.\<close>

lemmas eval_defs = InodeReader_new_def MetadataReader_new_def read_def scan_inode_def
  dynamic_size_def fixed_size_def fetch16_def fetch32_def fetch64_def fetch_def
  bindE_def return_def throw_def seek_def peek.simps poll_data_def mmap_read_le16_def
  mmap_read_array_def to_le16_def to_le32_def to_le64_def shift_buffer_def past_half_def
  store_def capacity_def squashfs4_def uncompressed_def
  type_dir_def type_reg_def type_symlink_def type_blkdev_def type_chrdev_def type_fifo_def
  type_socket_def type_ldir_def type_lreg_def type_lsymlink_def type_lblkdev_def
  type_lchrdev_def type_lfifo_def type_lsocket_def

subsection \<open>Word arithmetic\<close>

lemma unat_lt_16: "unat (w :: 16 word) < 2 ^ 16"
  using unsigned_less [of w, where 'a = nat] by simp

lemma unat_lt_32: "unat (w :: 32 word) < 2 ^ 32"
  using unsigned_less [of w, where 'a = nat] by simp

lemma unat_lt_64: "unat (w :: 64 word) < 2 ^ 64"
  using unsigned_less [of w, where 'a = nat] by simp

lemma unat_ucast_16_64: "unat (ucast (w :: 16 word) :: 64 word) = unat w"
  using unat_lt_16 [of w] by (simp add: unsigned_ucast_eq take_bit_nat_eq_self)

lemma unat_ucast_32_64: "unat (ucast (w :: 32 word) :: 64 word) = unat w"
  using unat_lt_32 [of w] by (simp add: unsigned_ucast_eq take_bit_nat_eq_self)

lemma unat_of_nat_64: "n < 2 ^ 64 \<Longrightarrow> unat (of_nat n :: 64 word) = n"
  by (simp add: unat_of_nat)

lemma unat_add_64:
  "unat x + unat y < 2 ^ 64 \<Longrightarrow> unat (x + y :: 64 word) = unat x + unat y"
  using unat_add_lem [of x y] by simp

lemma unat_add_32:
  "unat x + unat y < 2 ^ 32 \<Longrightarrow> unat (x + y :: 32 word) = unat x + unat y"
  using unat_add_lem [of x y] by simp

lemma unat_2p_32: "n < 32 \<Longrightarrow> unat (2 ^ n :: 32 word) = 2 ^ n"
proof -
  assume n: "n < 32"
  have "(2 ^ n :: 32 word) = of_nat (2 ^ n)"
    by simp
  moreover have "(2::nat) ^ n < 2 ^ 32"
    using n by (rule power_strict_increasing) simp
  ultimately show ?thesis
    by (simp only: unat_of_nat) simp
qed

subsection \<open>The layout helpers\<close>

text \<open>
  Claim C7. For every symlink and extended-symlink inode and every value of the
  32-bit field \<^verbatim>\<open>symlink_size\<close>, from 0 to the field's maximum,
  \<^verbatim>\<open>symlink::inode_size()\<close> is the size of the symlink structure plus
  \<^verbatim>\<open>symlink_size\<close>, as natural numbers: the sum does not wrap in \<^verbatim>\<open>size_t\<close>.
  The structure size is a parameter of the model, taken below \<open>2 ^ 32\<close>.
\<close>

theorem symlink_inode_size_exact:
  "sz_symlink L < 2 ^ 32 \<Longrightarrow>
   unat (symlink_inode_size L symlink_size) = sz_symlink L + unat symlink_size"
proof -
  assume a: "sz_symlink L < 2 ^ 32"
  have b: "unat symlink_size < 2 ^ 32"
    by (rule unat_lt_32)
  have d: "unat (of_nat (sz_symlink L) :: 64 word) = sz_symlink L"
    using a by (intro unat_of_nat_64) simp
  have "unat (of_nat (sz_symlink L) + ucast symlink_size :: 64 word)
      = unat (of_nat (sz_symlink L) :: 64 word) + unat (ucast symlink_size :: 64 word)"
    using a b by (intro unat_add_64) (simp add: unat_ucast_32_64 d)
  then show ?thesis
    by (simp add: symlink_inode_size_def unat_ucast_32_64 d)
qed

theorem symlink_inode_size_exact_witness:
  "sz_symlink squashfs4 < 2 ^ 32 \<and>
   unat (symlink_inode_size squashfs4 0xFFFFFFFF)
     = sz_symlink squashfs4 + unat (0xFFFFFFFF :: le32)"
  using symlink_inode_size_exact [of squashfs4 "0xFFFFFFFF"]
  by (simp add: squashfs4_def)

text \<open>
  Claim C3. \<^verbatim>\<open>reg::block_count\<close> is to return the file size divided by the block
  size, rounded up when the fragment field is the sentinel. The code adds
  \<^verbatim>\<open>block_size - 1\<close> in \<^verbatim>\<open>uint32_t\<close>, so the sum wraps for a file size within
  \<^verbatim>\<open>block_size - 1\<close> of \<open>2 ^ 32\<close>: for a file of \<open>2 ^ 32 - 1\<close> bytes without a
  fragment and 128 KiB blocks it returns 0, where rounding up gives 32768.
\<close>

theorem reg_block_count_wraps:
  "reg_block_count squashfs4 0xFFFFFFFF (invalid_frag squashfs4) 131072 17 = 0
   \<and> (unat (0xFFFFFFFF :: le32) + 131072 - 1) div 131072 = 32768"
  by (simp add: reg_block_count_def squashfs4_def)

text \<open>
  Where the sum does not wrap, the count is the rounded-up quotient; with a
  fragment it is the quotient rounded down, for every file size.
\<close>

lemma reg_block_count_no_fragment:
  assumes bl: "unat blog < 32" and bs: "bsize = 2 ^ unat blog"
    and nowrap: "unat file_size + 2 ^ unat blog - 1 < 2 ^ 32"
  shows "unat (reg_block_count L file_size (invalid_frag L) bsize blog)
       = (unat file_size + 2 ^ unat blog - 1) div 2 ^ unat blog"
proof -
  have p: "unat (2 ^ unat blog :: 32 word) = 2 ^ unat blog"
    using bl by (rule unat_2p_32)
  have pos: "(0::nat) < 2 ^ unat blog"
    by simp
  have "(2 ^ unat blog :: 32 word) \<noteq> 0"
    using p pos by (metis unat_0 less_numeral_extra(3))
  then have m: "unat (2 ^ unat blog - 1 :: 32 word) = 2 ^ unat blog - 1"
    by (simp add: unat_minus_one p)
  have "unat (file_size + (2 ^ unat blog - 1))
      = unat file_size + unat (2 ^ unat blog - 1 :: 32 word)"
    using nowrap pos by (intro unat_add_32) (simp add: m)
  then have "unat (file_size + (2 ^ unat blog - 1)) = unat file_size + 2 ^ unat blog - 1"
    using pos by (simp add: m)
  then show ?thesis
    by (simp add: reg_block_count_def bs unat_drop_bit_eq drop_bit_nat_def)
qed

lemma reg_block_count_fragment:
  "fragment \<noteq> invalid_frag L \<Longrightarrow>
   reg_block_count L file_size fragment bsize blog = drop_bit (unat blog) file_size
   \<and> unat (reg_block_count L file_size fragment bsize blog)
       = unat file_size div 2 ^ unat blog"
  by (simp add: reg_block_count_def unat_drop_bit_eq drop_bit_nat_def)

text \<open>
  For a block size \<open>2 ^ block_log\<close>: without a fragment and without wrap-around
  \<^verbatim>\<open>block_count\<close> is the file size divided by the block size, rounded up; with a
  fragment it is that quotient rounded down.
\<close>

theorem reg_block_count_rounds:
  assumes bl: "unat blog < 32" and bs: "bsize = 2 ^ unat blog"
  shows "(unat file_size + 2 ^ unat blog - 1 < 2 ^ 32 \<longrightarrow>
           unat (reg_block_count L file_size (invalid_frag L) bsize blog)
             = (unat file_size + 2 ^ unat blog - 1) div 2 ^ unat blog)
    \<and> (fragment \<noteq> invalid_frag L \<longrightarrow>
           unat (reg_block_count L file_size fragment bsize blog)
             = unat file_size div 2 ^ unat blog)"
proof (intro conjI impI)
  assume "unat file_size + 2 ^ unat blog - 1 < 2 ^ 32"
  with bl bs show "unat (reg_block_count L file_size (invalid_frag L) bsize blog)
      = (unat file_size + 2 ^ unat blog - 1) div 2 ^ unat blog"
    by (rule reg_block_count_no_fragment)
next
  assume "fragment \<noteq> invalid_frag L"
  then show "unat (reg_block_count L file_size fragment bsize blog)
      = unat file_size div 2 ^ unat blog"
    by (rule reg_block_count_fragment [THEN conjunct2])
qed

theorem reg_block_count_rounds_witness:
  "unat (17 :: 16 word) < 32 \<and> (131072 :: 32 word) = 2 ^ unat (17 :: 16 word)
   \<and> unat (reg_block_count squashfs4 131073 (invalid_frag squashfs4) 131072 17) = 2
   \<and> unat (reg_block_count squashfs4 131073 5 131072 17) = 1"
proof -
  have bl: "unat (17 :: 16 word) < 32"
    and bs: "(131072 :: 32 word) = 2 ^ unat (17 :: 16 word)"
    by simp_all
  note th = reg_block_count_rounds [OF bl bs, of 131073 squashfs4 5]
  have nw: "unat (131073 :: le32) + 2 ^ unat (17 :: 16 word) - 1 < 2 ^ 32"
    by simp
  have fr: "(5 :: le32) \<noteq> invalid_frag squashfs4"
    by (simp add: squashfs4_def)
  from th nw have "unat (reg_block_count squashfs4 131073 (invalid_frag squashfs4) 131072 17)
      = (unat (131073 :: le32) + 2 ^ unat (17 :: 16 word) - 1) div 2 ^ unat (17 :: 16 word)"
    by (rule conjunct1 [THEN mp])
  then have a: "unat (reg_block_count squashfs4 131073 (invalid_frag squashfs4) 131072 17) = 2"
    by simp
  from th fr have "unat (reg_block_count squashfs4 131073 5 131072 17)
      = unat (131073 :: le32) div 2 ^ unat (17 :: 16 word)"
    by (rule conjunct2 [THEN mp])
  then have b: "unat (reg_block_count squashfs4 131073 5 131072 17) = 1"
    by simp
  from bl bs a b show ?thesis
    by (intro conjI)
qed

subsection \<open>The reader: pulls and compaction keep the logical stream\<close>

lemma buffered_length [simp]: "length (buffered r) = unat (buf_filled r)"
  by (simp add: buffered_def)

lemma view_buffered:
  "n \<le> unat (buf_filled r) \<Longrightarrow> view r (bufp r) n = take n (buffered r)"
  by (simp add: view_def buffered_def take_map)

lemma view_stream:
  "n \<le> unat (buf_filled r) \<Longrightarrow> view r (bufp r) n = take n (stream L r)"
  by (simp add: view_buffered stream_def)

lemma shift_buffer_ok:
  assumes "shift_buffer L r = (Inr u, r')"
  shows "buffered r' = buffered r" and "buf_filled r' = buf_filled r"
    and "f r' = f r" and "compressor r' = compressor r"
    and "bufp r' = (if past_half L r then 0 else bufp r)"
    and "metadata_size L \<le> capacity L \<Longrightarrow> reader_inv L r'"
proof -
  from assms have c: "past_half L r \<Longrightarrow> bufp r + unat (buf_filled r) \<le> capacity L \<and>
      \<not> overlap 0 (bufp r) (unat (buf_filled r)) \<and>
      r' = r\<lparr> buf := (\<lambda>i. if i < unat (buf_filled r) then buf r (bufp r + i) else buf r i), bufp := 0 \<rparr>"
    and d: "\<not> past_half L r \<Longrightarrow> r' = r"
    by (auto simp: shift_buffer_def Let_def split: if_splits)
  show "buf_filled r' = buf_filled r" "f r' = f r" "compressor r' = compressor r"
    "bufp r' = (if past_half L r then 0 else bufp r)"
    using c d by (cases "past_half L r"; simp)+
  show "buffered r' = buffered r"
  proof (cases "past_half L r")
    case True
    with c show ?thesis
      by (auto simp: buffered_def map_upt_eqI intro!: nth_equalityI)
  next
    case False
    with d show ?thesis by simp
  qed
  show "reader_inv L r'" if "metadata_size L \<le> capacity L"
    using c d that by (cases "past_half L r") (auto simp: reader_inv_def past_half_def)
qed

lemma store_ok:
  assumes "store L (bufp r + unat (buf_filled r)) data r = (Inr u, r')"
    and cap: "capacity L < 2 ^ 64"
  shows "buffered r' = buffered r @ data"
    and "unat (buf_filled r') = unat (buf_filled r) + length data"
    and "f r' = f r" and "compressor r' = compressor r" and "bufp r' = bufp r"
    and "reader_inv L r'"
proof -
  let ?w = "bufp r + unat (buf_filled r)"
  from assms have le: "?w + length data \<le> capacity L"
    and r': "r' = r\<lparr> buf := (\<lambda>i. if ?w \<le> i \<and> i < ?w + length data
                                    then data ! (i - ?w) else buf r i),
                       buf_filled := buf_filled r + of_nat (length data) \<rparr>"
    by (auto simp: store_def split: if_splits)
  have len: "length data < 2 ^ 64"
    using le cap by simp
  have "unat (buf_filled r + of_nat (length data))
      = unat (buf_filled r) + unat (of_nat (length data) :: 64 word)"
    using le cap len by (intro unat_add_64) (simp add: unat_of_nat_64)
  then show n: "unat (buf_filled r') = unat (buf_filled r) + length data"
    using len by (simp add: r' unat_of_nat_64)
  show "f r' = f r" "compressor r' = compressor r"
    by (simp_all add: r')
  show bp: "bufp r' = bufp r"
    by (simp add: r')
  then show "reader_inv L r'"
    using le n by (simp add: reader_inv_def)
  have split: "[bufp r ..< ?w + length data] = [bufp r ..< ?w] @ [?w ..< ?w + length data]"
    by (rule upt_add_eq_append) simp
  have old: "map (buf r') [bufp r ..< ?w] = buffered r"
    by (simp add: buffered_def r')
  have new: "map (buf r') [?w ..< ?w + length data] = data"
    by (rule nth_equalityI) (simp_all add: r')
  have "buffered r' = map (buf r') [bufp r ..< ?w + length data]"
    unfolding buffered_def n bp by (simp only: add.assoc)
  also have "\<dots> = buffered r @ data"
    unfolding split map_append old new ..
  finally show "buffered r' = buffered r @ data" .
qed


lemma poll_data_cases:
  assumes "poll_data L r = (Inr u, r')"
  obtains len f1 r1 data f2 where
    "mmap_read_le16 (f r) = Some (len, f1)"
    "shift_buffer L (r\<lparr> f := f1 \<rparr>) = (Inr (), r1)"
    "pending (compressor r) (metadata_size L) (f r)
       = data @ pending (compressor r) (metadata_size L) f2"
    "store L (bufp r1 + unat (buf_filled r1)) data (r1\<lparr> f := f2 \<rparr>) = (Inr u, r')"
proof -
  from assms obtain len f1 where h: "mmap_read_le16 (f r) = Some (len, f1)"
    by (auto simp: poll_data_def split: option.splits)
  with assms obtain r1 where s: "shift_buffer L (r\<lparr> f := f1 \<rparr>) = (Inr (), r1)"
    by (auto simp: poll_data_def split: prod.splits sum.splits)
  have fr1: "f r1 = f1" and cr1: "compressor r1 = compressor r"
    using shift_buffer_ok(3,4) [OF s] by simp_all
  show thesis
  proof (cases "len AND uncompressed \<noteq> 0")
    case True
    with assms h s fr1 obtain data f2 where
      a: "mmap_read_array (unat (len AND NOT uncompressed)) f1 = Some (data, f2)"
      and st: "store L (bufp r1 + unat (buf_filled r1)) data (r1\<lparr> f := f2 \<rparr>) = (Inr u, r')"
      by (auto simp: poll_data_def Let_def split: option.splits)
    have pe: "pending (compressor r) (metadata_size L) (f r)
       = data @ pending (compressor r) (metadata_size L) f2"
      using h a True by (subst pending.simps) simp
    show thesis
      by (rule that [OF h s pe st])
  next
    case False
    with assms h s fr1 cr1 obtain src f2 data where
      a: "mmap_read_array (unat len) f1 = Some (src, f2)"
      and c: "compressor r src (metadata_size L) = Some data"
      and st: "store L (bufp r1 + unat (buf_filled r1)) data (r1\<lparr> f := f2 \<rparr>) = (Inr u, r')"
      by (auto simp: poll_data_def Let_def split: option.splits)
    have pe: "pending (compressor r) (metadata_size L) (f r)
       = data @ pending (compressor r) (metadata_size L) f2"
      using h a c False by (subst pending.simps) simp
    show thesis
      by (rule that [OF h s pe st])
  qed
qed

lemma poll_data_ok:
  assumes p: "poll_data L r = (Inr u, r')" and cap: "capacity L < 2 ^ 64"
  shows "stream L r' = stream L r" and "compressor r' = compressor r"
    and "reader_inv L r'" and "bufp r' = (if past_half L r then 0 else bufp r)"
    and "unat (buf_filled r) \<le> unat (buf_filled r')"
    and "\<exists>data. buffered r' = buffered r @ data"
proof -
  from p obtain len f1 r1 data f2 where
    h: "mmap_read_le16 (f r) = Some (len, f1)"
    and s: "shift_buffer L (r\<lparr> f := f1 \<rparr>) = (Inr (), r1)"
    and pd: "pending (compressor r) (metadata_size L) (f r)
       = data @ pending (compressor r) (metadata_size L) f2"
    and st: "store L (bufp r1 + unat (buf_filled r1)) data (r1\<lparr> f := f2 \<rparr>) = (Inr u, r')"
    by (rule poll_data_cases)
  let ?r2 = "r1\<lparr> f := f2 \<rparr>"
  have st': "store L (bufp ?r2 + unat (buf_filled ?r2)) data ?r2 = (Inr u, r')"
    using st by simp
  note sh = shift_buffer_ok [OF s]
  note so = store_ok [OF st' cap]
  have b: "buffered ?r2 = buffered r"
    using sh(1) by (simp add: buffered_def)
  show "compressor r' = compressor r"
    using so(4) sh(4) by simp
  then show "stream L r' = stream L r"
    using so(1,3) b pd by (simp add: stream_def)
  show "reader_inv L r'"
    by (rule so(6))
  show "bufp r' = (if past_half L r then 0 else bufp r)"
    using so(5) sh(5) by (simp add: past_half_def)
  show "unat (buf_filled r) \<le> unat (buf_filled r')"
    using so(2) sh(2) by simp
  show "\<exists>data. buffered r' = buffered r @ data"
    using so(1) b by simp
qed

lemma peek_ok:
  assumes "peek L len r = (Inr p, r')" and "capacity L < 2 ^ 64"
  shows "stream L r' = stream L r \<and> compressor r' = compressor r \<and> p = bufp r'
    \<and> len \<le> buf_filled r' \<and> bufp r' \<le> bufp r \<and> (reader_inv L r \<longrightarrow> reader_inv L r')"
  using assms
proof (induction L len r rule: peek.induct)
  case (1 L len r)
  note cap = "1.prems"(2)
  show ?case
  proof (cases "buf_filled r < len")
    case False
    with "1.prems" show ?thesis
      by (auto simp: not_less peek.simps [of L len r])
  next
    case True
    with "1.prems" obtain u r1 where pd: "poll_data L r = (Inr u, r1)"
      and pk: "peek L len r1 = (Inr p, r')"
      by (auto simp: peek.simps [of L len r] split: prod.splits sum.splits)
    note po = poll_data_ok [OF pd cap]
    have ih: "stream L r' = stream L r1 \<and> compressor r' = compressor r1 \<and> p = bufp r'
      \<and> len \<le> buf_filled r' \<and> bufp r' \<le> bufp r1 \<and> (reader_inv L r1 \<longrightarrow> reader_inv L r')"
      using "1.IH" [OF True pd [symmetric] refl pk cap] .
    then show ?thesis
      using po by (auto split: if_splits)
  qed
qed


lemma peek_bufp:
  assumes "peek L len r = (Inr p, r')" and "capacity L < 2 ^ 64"
  shows "bufp r' = bufp r \<or> bufp r' = 0"
  using assms
proof (induction L len r rule: peek.induct)
  case (1 L len r)
  note cap = "1.prems"(2)
  show ?case
  proof (cases "buf_filled r < len")
    case False
    with "1.prems" show ?thesis
      by (auto simp: peek.simps [of L len r])
  next
    case True
    with "1.prems" obtain u r1 where pd: "poll_data L r = (Inr u, r1)"
      and pk: "peek L len r1 = (Inr p, r')"
      by (auto simp: peek.simps [of L len r] split: prod.splits sum.splits)
    have "bufp r1 = bufp r \<or> bufp r1 = 0"
      using poll_data_ok(4) [OF pd cap] by (simp split: if_splits)
    moreover have "bufp r' = bufp r1 \<or> bufp r' = 0"
      using "1.IH" [OF True pd [symmetric] refl pk cap] .
    ultimately show ?thesis
      by auto
  qed
qed

text \<open>
  Claim C8, as the code has it. For every reader state that satisfies the
  invariant and every length, when \<^verbatim>\<open>peek(length)\<close> returns, at least \<open>length\<close>
  valid bytes are buffered at the cursor (\<^verbatim>\<open>buf_filled >= length\<close>): the returned
  pointer is the cursor, and the \<open>length\<close> bytes seen through it are the first
  \<open>length\<close> bytes of the logical stream as it stood before the call. The call
  consumes nothing: the logical stream from the cursor on is unchanged. The
  position \<^verbatim>\<open>bufp\<close> of the cursor in the buffer never grows, but it is not always
  the same: it is where it was or, when a pull has compacted the buffer, back
  at the origin. The invariant is kept.
\<close>

theorem peek_guarantee:
  assumes "peek L len r = (Inr p, r')" and "capacity L < 2 ^ 64" and "reader_inv L r"
  shows "len \<le> buf_filled r' \<and> p = bufp r' \<and> bufp r' \<le> bufp r
    \<and> (bufp r' = bufp r \<or> bufp r' = 0)
    \<and> view r' p (unat len) = take (unat len) (stream L r)
    \<and> length (view r' p (unat len)) = unat len
    \<and> stream L r' = stream L r \<and> reader_inv L r'"
proof -
  note pk = peek_ok [OF assms(1,2)]
  then have "unat len \<le> unat (buf_filled r')"
    by (simp add: word_le_nat_alt)
  then have "view r' (bufp r') (unat len) = take (unat len) (stream L r')"
    by (rule view_stream)
  moreover have "length (view r' p (unat len)) = unat len"
    by (simp add: view_def)
  moreover note peek_bufp [OF assms(1,2)]
  ultimately show ?thesis
    using pk assms(3) by simp
qed

lemma demo_peek: "fst (peek squashfs4 3 demo_reader) = Inr 0"
  by (simp add: peek.simps demo_reader_def demo_block_def MetadataReader_new_def poll_data_def
      mmap_read_le16_def mmap_read_array_def to_le16_def shift_buffer_def past_half_def
      store_def capacity_def squashfs4_def uncompressed_def)

theorem peek_guarantee_witness:
  "\<exists>p r'. peek squashfs4 3 demo_reader = (Inr p, r') \<and> capacity squashfs4 < 2 ^ 64
     \<and> reader_inv squashfs4 demo_reader
     \<and> 3 \<le> buf_filled r' \<and> p = bufp r' \<and> bufp r' \<le> bufp demo_reader
     \<and> (bufp r' = bufp demo_reader \<or> bufp r' = 0)
     \<and> view r' p 3 = take 3 (stream squashfs4 demo_reader)
     \<and> stream squashfs4 r' = stream squashfs4 demo_reader \<and> reader_inv squashfs4 r'"
proof -
  obtain r' where pk: "peek squashfs4 3 demo_reader = (Inr 0, r')"
    using demo_peek by (cases "peek squashfs4 3 demo_reader") auto
  have cap: "capacity squashfs4 < 2 ^ 64"
    by (simp add: capacity_def squashfs4_def)
  have inv: "reader_inv squashfs4 demo_reader"
    by (simp add: reader_inv_def demo_reader_def MetadataReader_new_def)
  show ?thesis
    using peek_guarantee [OF pk cap inv] pk cap inv by auto
qed

text \<open>
  The position does change. With four valid bytes at the end of the buffer
  (\<^verbatim>\<open>bufp - buf = 16380\<close>), \<^verbatim>\<open>peek(5)\<close> pulls a block; the write position is past
  \<^verbatim>\<open>metadata_size\<close>, so the four bytes are copied to the origin and the call
  returns with the cursor at offset 0.
\<close>

theorem peek_guarantee_counterexample:
  "reader_inv squashfs4 drained_reader
   \<and> bufp drained_reader = 16380
   \<and> fst (peek squashfs4 5 drained_reader) = Inr 0
   \<and> bufp (snd (peek squashfs4 5 drained_reader)) = 0
   \<and> 5 \<le> buf_filled (snd (peek squashfs4 5 drained_reader))
   \<and> bufp (snd (peek squashfs4 5 drained_reader)) \<noteq> bufp drained_reader"
  by (simp add: reader_inv_def drained_reader_def peek.simps poll_data_def mmap_read_le16_def
      mmap_read_array_def to_le16_def shift_buffer_def past_half_def overlap_def store_def
      capacity_def squashfs4_def uncompressed_def bindE_def return_def throw_def)


text \<open>
  Claim C6. After \<^verbatim>\<open>peek(n)\<close> has returned, with no \<^verbatim>\<open>seek\<close> in between:
  \<^verbatim>\<open>peek(m)\<close> for any \<open>m \<le> n\<close> returns the same pointer and leaves the reader
  as it is, so the views are identical; and a \<^verbatim>\<open>peek(m)\<close> of any length that
  returns, whatever it pulled and compacted, shows the same leading
  \<open>min n m\<close> bytes as the first view did.
\<close>

theorem peek_idempotent:
  assumes "peek L n r = (Inr p1, r1)" and "capacity L < 2 ^ 64"
  shows "(\<forall>m\<le>n. peek L m r1 = (Inr p1, r1))
    \<and> (\<forall>m p2 r2. peek L m r1 = (Inr p2, r2) \<longrightarrow>
          view r2 p2 (min (unat n) (unat m)) = view r1 p1 (min (unat n) (unat m)))"
proof (intro conjI allI impI)
  note pk = peek_ok [OF assms]
  fix m assume "m \<le> n"
  with pk have "\<not> buf_filled r1 < m"
    by (auto simp: not_less)
  with pk show "peek L m r1 = (Inr p1, r1)"
    by (simp add: peek.simps [of L m r1])
next
  note pk = peek_ok [OF assms]
  fix m p2 r2 assume 2: "peek L m r1 = (Inr p2, r2)"
  note pk2 = peek_ok [OF 2 assms(2)]
  let ?k = "min (unat n) (unat m)"
  have k: "?k \<le> unat (buf_filled r1)" "?k \<le> unat (buf_filled r2)"
    using pk pk2 by (simp_all add: word_le_nat_alt min_le_iff_disj)
  have "view r1 (bufp r1) ?k = take ?k (stream L r1)"
    "view r2 (bufp r2) ?k = take ?k (stream L r2)"
    using k by (simp_all only: view_stream)
  with pk pk2 show "view r2 p2 ?k = view r1 p1 ?k"
    by simp
qed

lemma demo_peek2: "fst (peek squashfs4 2 demo_reader2) = Inr 0"
  by (simp add: peek.simps demo_reader2_def demo_blocks2_def MetadataReader_new_def poll_data_def
      mmap_read_le16_def mmap_read_array_def to_le16_def shift_buffer_def past_half_def
      store_def capacity_def squashfs4_def uncompressed_def)

theorem peek_idempotent_witness:
  "\<exists>p1 r1 p2 r2. peek squashfs4 2 demo_reader2 = (Inr p1, r1) \<and> capacity squashfs4 < 2 ^ 64
     \<and> peek squashfs4 1 r1 = (Inr p1, r1) \<and> peek squashfs4 2 r1 = (Inr p1, r1)
     \<and> peek squashfs4 4 r1 = (Inr p2, r2) \<and> r2 \<noteq> r1 \<and> view r2 p2 2 = view r1 p1 2"
proof -
  obtain r1 where pk: "peek squashfs4 2 demo_reader2 = (Inr 0, r1)"
    using demo_peek2 by (cases "peek squashfs4 2 demo_reader2") auto
  have cap: "capacity squashfs4 < 2 ^ 64"
    by (simp add: capacity_def squashfs4_def)
  have r1: "buf_filled r1 = 2 \<and> f r1 = [3, 0x80, 12, 13, 14] \<and> bufp r1 = 0"
    using pk
    by (simp add: peek.simps demo_reader2_def demo_blocks2_def MetadataReader_new_def poll_data_def
        mmap_read_le16_def mmap_read_array_def to_le16_def shift_buffer_def past_half_def
        store_def capacity_def squashfs4_def uncompressed_def) auto
  have "fst (peek squashfs4 4 r1) = Inr 0 \<and> buf_filled (snd (peek squashfs4 4 r1)) = 5"
    using r1
    by (simp add: peek.simps poll_data_def
        mmap_read_le16_def mmap_read_array_def to_le16_def shift_buffer_def past_half_def
        store_def capacity_def squashfs4_def uncompressed_def)
  then obtain r2 where pk2: "peek squashfs4 4 r1 = (Inr 0, r2)" and "buf_filled r2 = 5"
    by (cases "peek squashfs4 4 r1") auto
  with r1 have ne: "r2 \<noteq> r1"
    by auto
  note th = peek_idempotent [OF pk cap]
  from th have a: "\<And>m. m \<le> 2 \<Longrightarrow> peek squashfs4 m r1 = (Inr 0, r1)"
    by blast
  from th pk2 have "view r2 0 (min (unat (2 :: size_t)) (unat (4 :: size_t)))
      = view r1 0 (min (unat (2 :: size_t)) (unat (4 :: size_t)))"
    by blast
  then have b: "view r2 0 2 = view r1 0 2"
    by simp
  have "peek squashfs4 1 r1 = (Inr 0, r1)" "peek squashfs4 2 r1 = (Inr 0, r1)"
    by (rule a, simp)+
  with pk cap pk2 ne b show ?thesis
    by blast
qed

subsection \<open>Compaction in poll_data\<close>

lemma past_half_f [simp]: "past_half L (r\<lparr> f := x \<rparr>) = past_half L r"
  by (simp add: past_half_def)

lemma poll_data_no_overlap:
  assumes "unat (buf_filled r) \<le> bufp r"
  shows "fst (poll_data L r) \<noteq> Inl Undefined_overlap"
proof -
  from assms have "\<not> overlap 0 (bufp r) (unat (buf_filled r))"
    by (simp add: overlap_def)
  then show ?thesis
    by (simp add: poll_data_def shift_buffer_def store_def Let_def
        split: option.splits prod.splits sum.splits if_splits)
qed

lemma overlap_reader_state:
  "fst (overlap_run four_blocks) = Inr 0
   \<and> bufp overlap_reader = 100 \<and> buf_filled overlap_reader = 8096"
  by (simp add: overlap_reader_def overlap_run_def four_blocks_def raw_block_def eval_defs
      overlap_def)

text \<open>
  Claim C2. The copy of lines 111-113 is to run on regions that do not overlap
  (the comment of the code says there is no risk of overlapping areas). The test of line 109
  is on the write position \<^verbatim>\<open>bufp + buf_filled\<close>, not on the read cursor, so the
  buffer is also compacted while the cursor is in the first half, and there more
  bytes can be valid than the cursor is far from the origin. The reader's own
  operations reach such a state: after \<open>overlap_run\<close> over four raw blocks of
  8192 bytes the cursor is 100 bytes past the origin and 8096 bytes are valid. A
  \<^verbatim>\<open>peek\<close> of 8100 bytes pulls a block; the write position 8196 is past
  \<^verbatim>\<open>metadata_size\<close>, the buffer is compacted, and the regions \<open>[100, 8196)\<close> and
  \<open>[0, 8096)\<close> of the \<^verbatim>\<open>memcpy\<close> overlap.
\<close>

theorem poll_data_overlapping_copy:
  "fst (overlap_run four_blocks) = Inr 0
   \<and> reader_inv squashfs4 overlap_reader
   \<and> bufp overlap_reader \<le> metadata_size squashfs4
   \<and> past_half squashfs4 overlap_reader
   \<and> overlap 0 (bufp overlap_reader) (unat (buf_filled overlap_reader))
   \<and> fst (poll_data squashfs4 overlap_reader) = Inl Undefined_overlap
   \<and> fst (peek squashfs4 8100 overlap_reader) = Inl Undefined_overlap"
proof -
  have "fst (poll_data squashfs4 overlap_reader) = Inl Undefined_overlap"
    by (simp add: overlap_reader_def overlap_run_def four_blocks_def raw_block_def eval_defs
        overlap_def)
  moreover have "fst (peek squashfs4 8100 overlap_reader) = Inl Undefined_overlap"
    by (simp add: overlap_reader_def overlap_run_def four_blocks_def raw_block_def eval_defs
        overlap_def)
  ultimately show ?thesis
    using overlap_reader_state
    by (simp add: reader_inv_def capacity_def past_half_def overlap_def squashfs4_def)
qed

text \<open>
  What \<^verbatim>\<open>poll_data\<close> does keep. When it returns, the cursor is at the origin exactly
  when the write position \<^verbatim>\<open>bufp + buf_filled\<close> was past \<^verbatim>\<open>metadata_size\<close>, and it
  has not moved otherwise; the valid bytes are kept. When the read cursor itself
  is past \<^verbatim>\<open>metadata_size\<close> in a reader whose valid bytes lie inside the buffer,
  the buffer is compacted and the regions of the copy do not overlap.
\<close>

theorem poll_data_compaction:
  assumes "reader_inv L r" and "capacity L < 2 ^ 64"
  shows "(\<forall>u r'. poll_data L r = (Inr u, r') \<longrightarrow>
            bufp r' = (if metadata_size L < bufp r + unat (buf_filled r) then 0 else bufp r)
            \<and> take (unat (buf_filled r)) (buffered r') = buffered r)
    \<and> (metadata_size L < bufp r \<longrightarrow>
          past_half L r \<and> \<not> overlap 0 (bufp r) (unat (buf_filled r))
          \<and> fst (poll_data L r) \<noteq> Inl Undefined_overlap)"
proof (intro conjI allI impI)
  fix u r' assume p: "poll_data L r = (Inr u, r')"
  from poll_data_ok(4) [OF p assms(2)]
  show "bufp r' = (if metadata_size L < bufp r + unat (buf_filled r) then 0 else bufp r)"
    by (simp add: past_half_def)
  from poll_data_ok(6) [OF p assms(2)] obtain data where "buffered r' = buffered r @ data"
    by blast
  then show "take (unat (buf_filled r)) (buffered r') = buffered r"
    by simp
next
  assume "metadata_size L < bufp r"
  then show "past_half L r"
    by (simp add: past_half_def)
next
  assume "metadata_size L < bufp r"
  with assms(1) have le: "unat (buf_filled r) \<le> bufp r"
    by (simp add: reader_inv_def capacity_def)
  then show "\<not> overlap 0 (bufp r) (unat (buf_filled r))"
    by (simp add: overlap_def)
next
  assume "metadata_size L < bufp r"
  with assms(1) have le: "unat (buf_filled r) \<le> bufp r"
    by (simp add: reader_inv_def capacity_def)
  then show "fst (poll_data L r) \<noteq> Inl Undefined_overlap"
    by (rule poll_data_no_overlap)
qed

theorem poll_data_compaction_witness:
  "reader_inv squashfs4 drained_reader \<and> capacity squashfs4 < 2 ^ 64
   \<and> (\<exists>u r'. poll_data squashfs4 drained_reader = (Inr u, r') \<and> bufp r' = 0
         \<and> take 4 (buffered r') = buffered drained_reader)
   \<and> metadata_size squashfs4 < bufp drained_reader
   \<and> past_half squashfs4 drained_reader
   \<and> \<not> overlap 0 (bufp drained_reader) (unat (buf_filled drained_reader))
   \<and> fst (poll_data squashfs4 drained_reader) \<noteq> Inl Undefined_overlap"
proof -
  have inv: "reader_inv squashfs4 drained_reader"
    by (simp add: reader_inv_def drained_reader_def capacity_def squashfs4_def)
  have cap: "capacity squashfs4 < 2 ^ 64"
    by (simp add: capacity_def squashfs4_def)
  have "fst (poll_data squashfs4 drained_reader) = Inr ()"
    by (simp add: drained_reader_def poll_data_def mmap_read_le16_def mmap_read_array_def
        to_le16_def shift_buffer_def past_half_def overlap_def store_def capacity_def
        squashfs4_def uncompressed_def)
  then obtain r' where p: "poll_data squashfs4 drained_reader = (Inr (), r')"
    by (cases "poll_data squashfs4 drained_reader") auto
  have v: "unat (buf_filled drained_reader) = 4" "bufp drained_reader = 16380"
    "metadata_size squashfs4 = 8192"
    by (simp_all add: drained_reader_def squashfs4_def)
  note th = poll_data_compaction [OF inv cap]
  from th p have "bufp r' = 0 \<and> take 4 (buffered r') = buffered drained_reader"
    by (simp add: v)
  moreover from th have "past_half squashfs4 drained_reader
      \<and> \<not> overlap 0 (bufp drained_reader) (unat (buf_filled drained_reader))
      \<and> fst (poll_data squashfs4 drained_reader) \<noteq> Inl Undefined_overlap"
    by (simp add: v)
  ultimately show ?thesis
    using inv cap p by (simp add: v)
qed


subsection \<open>seek without bounds\<close>

text \<open>
  Claim C9, as the code has it. \<^verbatim>\<open>seek(length)\<close> checks nothing: it always
  returns, the cursor advanced by \<open>length\<close>. When \<open>length\<close> exceeds
  \<^verbatim>\<open>buf_filled\<close> the new count wraps to \<open>2 ^ 64 - (length - buf_filled)\<close>, and
  from then on every \<^verbatim>\<open>peek\<close> of at most that many bytes returns at once, the
  reader unchanged and no block pulled.
\<close>

theorem seek_wraps:
  assumes "buf_filled r < len"
  shows "\<exists>r'. seek len r = (Inr (), r') \<and> bufp r' = bufp r + unat len
      \<and> unat (buf_filled r') = 2 ^ 64 - (unat len - unat (buf_filled r))
      \<and> (\<forall>m. unat m \<le> 2 ^ 64 - (unat len - unat (buf_filled r))
            \<longrightarrow> peek L m r' = (Inr (bufp r'), r'))"
proof -
  let ?r' = "r\<lparr> bufp := bufp r + unat len, buf_filled := buf_filled r - len \<rparr>"
  from assms have lt: "unat (buf_filled r) < unat len"
    by (simp add: word_less_nat_alt)
  have "unat len < 2 ^ 64"
    by (rule unat_lt_64)
  with lt have w: "unat (buf_filled r - len) = 2 ^ 64 - (unat len - unat (buf_filled r))"
    by (simp add: unat_sub_if')
  have "peek L m ?r' = (Inr (bufp ?r'), ?r')"
    if "unat m \<le> 2 ^ 64 - (unat len - unat (buf_filled r))" for m
  proof -
    from that w have "\<not> buf_filled ?r' < m"
      by (simp add: word_less_nat_alt)
    then show ?thesis
      by (simp add: peek.simps [of L m ?r'])
  qed
  with w show ?thesis
    by (simp add: seek_def)
qed

theorem seek_wraps_witness:
  "buf_filled empty_reader < 2
   \<and> (\<exists>r'. seek 2 empty_reader = (Inr (), r') \<and> bufp r' = 2
         \<and> buf_filled r' = 0xFFFFFFFFFFFFFFFE
         \<and> peek squashfs4 0xFFFFFFFFFFFFFFFE r' = (Inr 2, r')
         \<and> peek squashfs4 280 r' = (Inr 2, r'))"
proof -
  have lt: "buf_filled empty_reader < 2"
    by (simp add: empty_reader_def MetadataReader_new_def)
  from seek_wraps [OF lt, of squashfs4] obtain r' where
    s: "seek 2 empty_reader = (Inr (), r')" and b: "bufp r' = bufp empty_reader + unat (2 :: size_t)"
    and p: "\<And>m. unat m \<le> 2 ^ 64 - (unat (2 :: size_t) - unat (buf_filled empty_reader))
            \<Longrightarrow> peek squashfs4 m r' = (Inr (bufp r'), r')"
    by blast
  have b2: "bufp r' = 2"
    using b by (simp add: empty_reader_def MetadataReader_new_def)
  have f: "buf_filled r' = 0xFFFFFFFFFFFFFFFE"
    using s by (auto simp: seek_def empty_reader_def MetadataReader_new_def)
  have "peek squashfs4 0xFFFFFFFFFFFFFFFE r' = (Inr (bufp r'), r')"
    "peek squashfs4 280 r' = (Inr (bufp r'), r')"
    by (rule p, simp add: empty_reader_def MetadataReader_new_def)+
  with lt s b2 f show ?thesis
    by simp
qed

text \<open>
  The claim as stated fails for a \<^verbatim>\<open>peek\<close> of more bytes than the wrapped
  count: after \<^verbatim>\<open>seek(2)\<close> on no valid byte the count is \<open>2 ^ 64 - 2\<close>, and
  \<^verbatim>\<open>peek(2 ^ 64 - 1)\<close> goes on to pull a block (here the file is empty, and the
  pull fails).
\<close>

theorem seek_wraps_counterexample:
  "buf_filled empty_reader < 2
   \<and> buf_filled (snd (seek 2 empty_reader)) = 0xFFFFFFFFFFFFFFFE
   \<and> fst (peek squashfs4 0xFFFFFFFFFFFFFFFF (snd (seek 2 empty_reader))) = Inl Truncated_input"
  by (simp add: seek_def empty_reader_def MetadataReader_new_def peek.simps poll_data_def
      mmap_read_le16_def)

subsection \<open>Fields read through the pointer of a peek\<close>

lemma to_le16_take: "2 \<le> n \<Longrightarrow> to_le16 (take n bs) = to_le16 bs"
  by (simp add: to_le16_def min_def)

lemma to_le32_take: "4 \<le> n \<Longrightarrow> to_le32 (take n bs) = to_le32 bs"
  by (simp add: to_le32_def min_def)

lemma to_le64_take: "8 \<le> n \<Longrightarrow> to_le64 (take n bs) = to_le64 bs"
  by (simp add: to_le64_def min_def)

lemma fetch_stream:
  assumes "reader_inv L r" and "off + w \<le> unat (buf_filled r)"
  shows "fetch L (bufp r + off) w r = (Inr (take w (drop off (stream L r))), r)"
proof -
  have "take w (drop off (stream L r)) = take w (drop off (buffered r))"
    using assms(2) by (simp add: stream_def)
  also have "\<dots> = map (buf r) [bufp r + off ..< bufp r + off + w]"
    using assms(2) by (simp add: buffered_def take_map drop_map add.commute add.left_commute)
  finally show ?thesis
    using assms by (simp add: fetch_def reader_inv_def)
qed

lemma fetch16_stream:
  assumes "reader_inv L r" and "off + 2 \<le> unat (buf_filled r)"
  shows "fetch16 L (bufp r + off) r = (Inr (to_le16 (drop off (stream L r))), r)"
  by (simp add: fetch16_def bindE_def return_def fetch_stream [OF assms] to_le16_take)

lemma fetch32_stream:
  assumes "reader_inv L r" and "off + 4 \<le> unat (buf_filled r)"
  shows "fetch32 L (bufp r + off) r = (Inr (to_le32 (drop off (stream L r))), r)"
  by (simp add: fetch32_def bindE_def return_def fetch_stream [OF assms] to_le32_take)

lemma fetch64_stream:
  assumes "reader_inv L r" and "off + 8 \<le> unat (buf_filled r)"
  shows "fetch64 L (bufp r + off) r = (Inr (to_le64 (drop off (stream L r))), r)"
  by (simp add: fetch64_def bindE_def return_def fetch_stream [OF assms] to_le64_take)

text \<open>What a peek that returns gives the decoder.\<close>

lemma peek_nat:
  assumes "peek L (of_nat n) r = (Inr p, r')" and "capacity L < 2 ^ 64" and "reader_inv L r"
    and "n < 2 ^ 64"
  shows "p = bufp r'" and "n \<le> unat (buf_filled r')" and "reader_inv L r'"
    and "stream L r' = stream L r"
proof -
  note pk = peek_ok [OF assms(1,2)]
  show "p = bufp r'" "reader_inv L r'" "stream L r' = stream L r"
    using pk assms(3) by simp_all
  from pk have "unat (of_nat n :: size_t) \<le> unat (buf_filled r')"
    by (simp add: word_le_nat_alt)
  then show "n \<le> unat (buf_filled r')"
    using assms(4) by (simp add: unat_of_nat_64)
qed

subsection \<open>The invalid type tag\<close>

text \<open>
  Claim C4. Take a decoder whose index check passes, and a stream whose next
  record, once its common header can be peeked, carries a type tag that is 0 or
  greater than \<^verbatim>\<open>lsocket\<close>. Then \<^verbatim>\<open>read()\<close> fails with "Invalid inode type";
  the reader is left as the first \<^verbatim>\<open>peek\<close> left it (no \<^verbatim>\<open>seek\<close> is performed), so
  the logical stream from the cursor is what it was, and the inode index is not
  advanced.
\<close>

theorem read_invalid_type:
  assumes idx: "inode_num d < no_inodes d + 1"
    and cap: "capacity L < 2 ^ 64" and lay: "off_inode_type L + 2 \<le> sz_base L" "sz_base L < 2 ^ 64"
    and inv: "reader_inv L (reader d)"
    and pk: "peek L (of_nat (sz_base L)) (reader d) = (Inr ret, r1)"
    and tag: "to_le16 (drop (off_inode_type L) (stream L (reader d))) = 0
            \<or> type_lsocket < to_le16 (drop (off_inode_type L) (stream L (reader d)))"
  shows "read L d = (Inl Invalid_inode_type, d\<lparr> reader := r1 \<rparr>)
    \<and> inode_num (snd (read L d)) = inode_num d
    \<and> stream L (reader (snd (read L d))) = stream L (reader d)"
proof -
  note p = peek_nat [OF pk cap inv lay(2)]
  have "off_inode_type L + 2 \<le> unat (buf_filled r1)"
    using p(2) lay(1) by simp
  from fetch16_stream [OF p(3) this]
  have ft: "fetch16 L (ret + off_inode_type L) r1
      = (Inr (to_le16 (drop (off_inode_type L) (stream L (reader d)))), r1)"
    by (simp add: p(1,4))
  have "scan_inode L (block_size d) (block_log d) (reader d) = (Inl Invalid_inode_type, r1)"
    using tag by (auto simp: scan_inode_def bindE_def pk ft throw_def Let_def)
  moreover have "\<not> no_inodes d + 1 \<le> inode_num d"
    using idx by (simp add: not_le)
  ultimately have "read L d = (Inl Invalid_inode_type, d\<lparr> reader := r1 \<rparr>)"
    by (simp add: read_def)
  then show ?thesis
    by (simp add: p(4))
qed


lemma bad_tag_stream: "stream squashfs4 (reader bad_tag_decoder) = bad_tag_record"
  by (simp add: stream_def buffered_def bad_tag_decoder_def InodeReader_new_def
      MetadataReader_new_def pending.simps mmap_read_le16_def mmap_read_array_def
      to_le16_def uncompressed_def bad_tag_record_def)

lemma bad_tag_peek: "fst (peek squashfs4 16 (reader bad_tag_decoder)) = Inr 0"
  by (simp add: bad_tag_decoder_def InodeReader_new_def MetadataReader_new_def peek.simps
      poll_data_def mmap_read_le16_def mmap_read_array_def to_le16_def shift_buffer_def
      past_half_def store_def capacity_def squashfs4_def uncompressed_def bad_tag_record_def)

theorem read_invalid_type_witness:
  "\<exists>r1. inode_num bad_tag_decoder < no_inodes bad_tag_decoder + 1
     \<and> reader_inv squashfs4 (reader bad_tag_decoder)
     \<and> peek squashfs4 16 (reader bad_tag_decoder) = (Inr 0, r1)
     \<and> type_lsocket < to_le16 (drop 0 (stream squashfs4 (reader bad_tag_decoder)))
     \<and> read squashfs4 bad_tag_decoder = (Inl Invalid_inode_type, bad_tag_decoder\<lparr> reader := r1 \<rparr>)
     \<and> inode_num (snd (read squashfs4 bad_tag_decoder)) = 0
     \<and> stream squashfs4 (reader (snd (read squashfs4 bad_tag_decoder))) = bad_tag_record"
proof -
  obtain r1 where pk0: "peek squashfs4 16 (reader bad_tag_decoder) = (Inr 0, r1)"
    using bad_tag_peek by (cases "peek squashfs4 16 (reader bad_tag_decoder)") auto
  then have pk: "peek squashfs4 (of_nat (sz_base squashfs4)) (reader bad_tag_decoder) = (Inr 0, r1)"
    by (simp add: squashfs4_def)
  have idx: "inode_num bad_tag_decoder < no_inodes bad_tag_decoder + 1"
    by (simp add: bad_tag_decoder_def InodeReader_new_def)
  have cap: "capacity squashfs4 < 2 ^ 64"
    by (simp add: capacity_def squashfs4_def)
  have lay: "off_inode_type squashfs4 + 2 \<le> sz_base squashfs4" "sz_base squashfs4 < 2 ^ 64"
    by (simp_all add: squashfs4_def)
  have inv: "reader_inv squashfs4 (reader bad_tag_decoder)"
    by (simp add: reader_inv_def bad_tag_decoder_def InodeReader_new_def MetadataReader_new_def)
  have t: "type_lsocket < to_le16 (drop 0 (stream squashfs4 (reader bad_tag_decoder)))"
    by (simp add: bad_tag_stream bad_tag_record_def to_le16_def type_lsocket_def)
  then have tag: "to_le16 (drop (off_inode_type squashfs4) (stream squashfs4 (reader bad_tag_decoder))) = 0
      \<or> type_lsocket < to_le16 (drop (off_inode_type squashfs4) (stream squashfs4 (reader bad_tag_decoder)))"
    by (simp add: squashfs4_def)
  have n: "inode_num bad_tag_decoder = 0"
    by (simp add: bad_tag_decoder_def InodeReader_new_def)
  note th = read_invalid_type [OF idx cap lay inv pk tag]
  from th have a: "read squashfs4 bad_tag_decoder
      = (Inl Invalid_inode_type, bad_tag_decoder\<lparr> reader := r1 \<rparr>)"
    by blast
  from th have "inode_num (snd (read squashfs4 bad_tag_decoder)) = inode_num bad_tag_decoder"
    by blast
  then have b: "inode_num (snd (read squashfs4 bad_tag_decoder)) = 0"
    by (simp only: n)
  from th have "stream squashfs4 (reader (snd (read squashfs4 bad_tag_decoder)))
      = stream squashfs4 (reader bad_tag_decoder)"
    by blast
  then have c: "stream squashfs4 (reader (snd (read squashfs4 bad_tag_decoder))) = bad_tag_record"
    by (simp only: bad_tag_stream)
  from idx inv pk0 t a b c show ?thesis
    by blast
qed

subsection \<open>The bound on the inode index\<close>

text \<open>The check of lines 160-161 fires from \<^verbatim>\<open>no_inodes + 1\<close> on, and leaves the decoder alone.\<close>

lemma read_past_last:
  "no_inodes d + 1 \<le> inode_num d \<Longrightarrow> read L d = (Inl Past_last_inode, d)"
  by (simp add: read_def)

lemma first_read:
  "fst (read squashfs4 one_inode_decoder) = Inr 0
   \<and> inode_num (snd (read squashfs4 one_inode_decoder)) = 1
   \<and> no_inodes (snd (read squashfs4 one_inode_decoder)) = 1"
  by (simp add: one_inode_decoder_def fifo_record_def eval_defs)


text \<open>
  Claim C1. Once all declared inodes have been produced (\<^verbatim>\<open>inode_num\<close> equals
  \<^verbatim>\<open>no_inodes\<close>), a further \<^verbatim>\<open>read()\<close> is to fail with the out-of-range error
  before anything is decoded. The code tests \<^verbatim>\<open>inode_num >= no_inodes + 1\<close>: with
  one declared inode, the second call still decodes a record, returns it and
  advances the index to 2; only the third call fails.
\<close>

theorem read_at_inode_count:
  "no_inodes one_inode_decoder = 1
   \<and> fst (read squashfs4 one_inode_decoder) = Inr 0
   \<and> inode_num (snd (read squashfs4 one_inode_decoder)) = 1
   \<and> fst (read squashfs4 (snd (read squashfs4 one_inode_decoder))) = Inr 20
   \<and> inode_num (snd (read squashfs4 (snd (read squashfs4 one_inode_decoder)))) = 2
   \<and> fst (read squashfs4 (snd (read squashfs4 (snd (read squashfs4 one_inode_decoder)))))
       = Inl Past_last_inode"
  by (simp add: one_inode_decoder_def fifo_record_def eval_defs word_le_nat_alt)

text \<open>On the same table the third call meets the check.\<close>

theorem read_past_last_witness:
  "no_inodes (snd (read squashfs4 (snd (read squashfs4 one_inode_decoder)))) + 1
     \<le> inode_num (snd (read squashfs4 (snd (read squashfs4 one_inode_decoder))))
   \<and> read squashfs4 (snd (read squashfs4 (snd (read squashfs4 one_inode_decoder))))
       = (Inl Past_last_inode, snd (read squashfs4 (snd (read squashfs4 one_inode_decoder))))"
proof -
  have a: "no_inodes (snd (read squashfs4 (snd (read squashfs4 one_inode_decoder)))) + 1
     \<le> inode_num (snd (read squashfs4 (snd (read squashfs4 one_inode_decoder))))"
    by (simp add: one_inode_decoder_def fifo_record_def eval_defs word_le_nat_alt)
  from read_past_last [OF a, of squashfs4] a show ?thesis
    by simp
qed

subsection \<open>The directory-index loop\<close>

lemma ldir_cond_inv:
  assumes ok: "layout_ok L" and inv: "ldir_inv L S n (i, offset, inode_len, ret) r"
    and n: "n = unat (to_le16 (drop (off_ldir_i_count L) S))"
  shows "ldir_cond L (i, offset, inode_len, ret) r = (Inr (i < n), r)"
proof -
  from inv have r: "ret = bufp r" "reader_inv L r" "stream L r = S"
    and len: "unat inode_len \<le> unat (buf_filled r)"
    and eq: "unat inode_len = unat offset + (n - i) * sz_dir_index L"
    and off: "sz_ldir L \<le> unat offset"
    by (simp_all add: ldir_inv_def word_le_nat_alt)
  from ok have "off_ldir_i_count L + 2 \<le> sz_ldir L"
    by (simp add: layout_ok_def)
  with len eq off have "off_ldir_i_count L + 2 \<le> unat (buf_filled r)"
    by simp
  from fetch16_stream [OF r(2) this] show ?thesis
    by (simp add: ldir_cond_def bindE_def return_def r n)
qed

lemma ldir_fetch_inv:
  assumes ok: "layout_ok L" and inv: "ldir_inv L S n (i, offset, inode_len, ret) r"
    and i: "i < n" and s: "s = to_le32 (drop (unat offset + off_idx_size L) S)"
  shows "fetch32 L (ret + unat offset + off_idx_size L) r = (Inr s, r)"
    and "unat offset + sz_dir_index L + (n - (i + 1)) * sz_dir_index L = unat inode_len"
    and "unat offset + off_idx_size L + 4 \<le> unat (buf_filled r)"
proof -
  from inv have r: "ret = bufp r" "reader_inv L r" "stream L r = S"
    and len: "unat inode_len \<le> unat (buf_filled r)"
    and eq: "unat inode_len = unat offset + (n - i) * sz_dir_index L"
    by (simp_all add: ldir_inv_def word_le_nat_alt)
  from ok have fld: "off_idx_size L + 4 \<le> sz_dir_index L"
    by (simp add: layout_ok_def)
  from i have "n - i = Suc (n - (i + 1))"
    by simp
  then have "(n - i) * sz_dir_index L = sz_dir_index L + (n - (i + 1)) * sz_dir_index L"
    by (simp only: mult_Suc)
  with eq show eq1: "unat offset + sz_dir_index L + (n - (i + 1)) * sz_dir_index L = unat inode_len"
    by simp
  with fld len show b: "unat offset + off_idx_size L + 4 \<le> unat (buf_filled r)"
    by simp
  from fetch32_stream [OF r(2) b]
  show "fetch32 L (ret + unat offset + off_idx_size L) r = (Inr s, r)"
    by (simp add: r s add.assoc)
qed

lemma ldir_body_inv:
  assumes ok: "layout_ok L" and inv: "ldir_inv L S n (i, offset, inode_len, ret) r"
    and i: "i < n" and body: "ldir_body L (i, offset, inode_len, ret) r = (Inr v', r')"
    and s: "s = to_le32 (drop (unat offset + off_idx_size L) S)"
  shows "ldir_inv L S n v' r'" and "fst v' = i + 1"
    and "unat (fst (snd v')) = unat offset + (sz_dir_index L + unat (s + 1))"
proof -
  from inv have r: "ret = bufp r" "reader_inv L r" "stream L r = S"
    and len: "unat inode_len \<le> unat (buf_filled r)"
    and off: "sz_ldir L \<le> unat offset"
    by (simp_all add: ldir_inv_def word_le_nat_alt)
  from ok have cap: "capacity L < 2 ^ 63" and cap': "capacity L < 2 ^ 64"
    by (simp_all add: layout_ok_def)
  note fi = ldir_fetch_inv [OF ok inv i s]
  let ?len = "inode_len + ucast (s + 1)"
  let ?off = "offset + (ucast (s + 1) + of_nat (sz_dir_index L))"
  from body fi(1) obtain ret' where pk: "peek L ?len r = (Inr ret', r')"
    and v': "v' = (i + 1, ?off, ?len, ret')"
    by (auto simp: ldir_body_def bindE_def return_def Let_def split: prod.splits sum.splits)
  show "fst v' = i + 1"
    by (simp add: v')
  note p = peek_ok [OF pk cap']
  have bound: "unat inode_len \<le> capacity L"
    using len r(2) by (simp add: reader_inv_def)
  have s32: "unat (ucast (s + 1) :: size_t) = unat (s + 1)"
    by (rule unat_ucast_32_64)
  have s_lt: "unat (s + 1) < 2 ^ 32"
    by (rule unat_lt_32)
  have ulen: "unat ?len = unat inode_len + unat (s + 1)"
    using bound cap s_lt by (subst unat_add_64) (simp_all add: s32)
  have idx_lt: "sz_dir_index L < 2 ^ 64"
    using fi(2) unat_lt_64 [of inode_len] by simp
  have uidx: "unat (of_nat (sz_dir_index L) :: size_t) = sz_dir_index L"
    using idx_lt by (rule unat_of_nat_64)
  have sum_lt: "unat (s + 1) + sz_dir_index L < 2 ^ 64"
    using fi(2) bound cap s_lt by simp
  have uinc: "unat (ucast (s + 1) + of_nat (sz_dir_index L) :: size_t) = unat (s + 1) + sz_dir_index L"
    using sum_lt by (subst unat_add_64) (simp_all add: s32 uidx)
  have uoff: "unat ?off = unat offset + (unat (s + 1) + sz_dir_index L)"
    using fi(2) bound cap s_lt by (subst unat_add_64) (simp_all add: uinc)
  show "unat (fst (snd v')) = unat offset + (sz_dir_index L + unat (s + 1))"
    by (simp add: v' uoff)
  have "unat ?len = unat ?off + (n - (i + 1)) * sz_dir_index L"
    using fi(2) by (simp add: ulen uoff)
  moreover have "sz_ldir L \<le> unat ?off"
    using off by (simp add: uoff)
  ultimately show "ldir_inv L S n v' r'"
    using p r i by (simp add: ldir_inv_def v')
qed

lemma ldir_iter_inv:
  assumes ok: "layout_ok L" and n: "n = unat (to_le16 (drop (off_ldir_i_count L) S))"
    and start: "ldir_inv L S n v0 r0"
  shows "ldir_iter L k v0 r0 = Some (v, r) \<Longrightarrow> ldir_inv L S n v r \<and> fst v = fst v0 + k"
proof (induction k arbitrary: v r)
  case 0
  with start show ?case by simp
next
  case (Suc k)
  from Suc.prems obtain v1 r1 r2 where it: "ldir_iter L k v0 r0 = Some (v1, r1)"
    and c: "ldir_cond L v1 r1 = (Inr True, r2)" and b: "ldir_body L v1 r2 = (Inr v, r)"
    by (auto split: option.splits prod.splits sum.splits bool.splits)
  obtain i offset inode_len ret where v1: "v1 = (i, offset, inode_len, ret)"
    by (cases v1) auto
  from Suc.IH [OF it] have inv: "ldir_inv L S n (i, offset, inode_len, ret) r1"
    and i: "i = fst v0 + k"
    by (auto simp: v1)
  from ldir_cond_inv [OF ok inv n] c have "i < n" "r2 = r1"
    by (simp_all add: v1)
  with b have "ldir_body L (i, offset, inode_len, ret) r1 = (Inr v, r)"
    by (simp add: v1)
  from ldir_body_inv(1,2) [OF ok inv \<open>i < n\<close> this refl] i show ?case
    by simp
qed

lemma ldir_inv_start:
  assumes ok: "layout_ok L" and inv0: "reader_inv L r0"
    and len0: "inode_len0 = of_nat (sz_ldir L) + ucast (i_count :: le16) * of_nat (sz_dir_index L)"
    and pk0: "inode_len0 \<le> buf_filled r0"
  shows "ldir_inv L (stream L r0) (unat i_count) (0, of_nat (sz_ldir L), inode_len0, bufp r0) r0"
proof -
  from ok have b: "sz_ldir L + 65536 * sz_dir_index L < 2 ^ 64"
    by (simp add: layout_ok_def)
  have n: "unat i_count < 65536"
    using unat_lt_16 [of i_count] by simp
  then have "unat i_count * sz_dir_index L \<le> 65536 * sz_dir_index L"
    by (intro mult_right_mono) simp_all
  with b have nb: "sz_ldir L + unat i_count * sz_dir_index L < 2 ^ 64"
    by linarith
  have ul: "unat (of_nat (sz_ldir L) :: size_t) = sz_ldir L"
    using b by (intro unat_of_nat_64) simp
  have ui: "unat (of_nat (sz_dir_index L) :: size_t) = sz_dir_index L"
  proof (rule unat_of_nat_64)
    have "sz_dir_index L \<le> 65536 * sz_dir_index L"
      by simp
    with b show "sz_dir_index L < 2 ^ 64"
      by simp
  qed
  have "unat (ucast i_count * of_nat (sz_dir_index L) :: size_t)
      = unat (ucast i_count :: size_t) * unat (of_nat (sz_dir_index L) :: size_t)"
    using nb by (intro unat_mult_lem [THEN iffD1]) (simp add: unat_ucast_16_64 ui)
  then have um: "unat (ucast i_count * of_nat (sz_dir_index L) :: size_t)
      = unat i_count * sz_dir_index L"
    by (simp add: unat_ucast_16_64 ui)
  have "unat inode_len0 = sz_ldir L + unat i_count * sz_dir_index L"
    unfolding len0 using nb by (subst unat_add_64) (simp_all add: ul um)
  with inv0 pk0 show ?thesis
    by (simp add: ldir_inv_def ul)
qed

subsection \<open>The length of an extended directory\<close>

lemma bindE_Inr:
  assumes "bindE m k s = (Inr y, s')"
  obtains x s1 where "m s = (Inr x, s1)" and "k x s1 = (Inr y, s')"
  using assms by (auto simp: bindE_def split: prod.splits sum.splits)

lemma bindE_known: "m s = (Inr x, s1) \<Longrightarrow> bindE m k s = k x s1"
  by (simp add: bindE_def)

lemma seek_stream:
  assumes "len \<le> buf_filled r"
  shows "seek len r = (Inr (), r\<lparr> bufp := bufp r + unat len, buf_filled := buf_filled r - len \<rparr>)"
    and "stream L (snd (seek len r)) = drop (unat len) (stream L r)"
proof -
  show "seek len r = (Inr (), r\<lparr> bufp := bufp r + unat len, buf_filled := buf_filled r - len \<rparr>)"
    by (simp add: seek_def)
  from assms have le: "unat len \<le> unat (buf_filled r)"
    by (simp add: word_le_nat_alt)
  have "unat (buf_filled r - len) = unat (buf_filled r) - unat len"
    using assms by (rule unat_sub)
  with le have "buffered (snd (seek len r)) = drop (unat len) (buffered r)"
    by (simp add: seek_def buffered_def drop_map add.commute)
  with le show "stream L (snd (seek len r)) = drop (unat len) (stream L r)"
    by (simp add: stream_def seek_def)
qed

lemma ldir_loop_inv:
  assumes ok: "layout_ok L" and n: "n = unat (to_le16 (drop (off_ldir_i_count L) S))"
  shows "ldir_inv L S n (i, offset, inode_len, ret) r \<Longrightarrow>
     ldir_loop L (i, offset, inode_len, ret) r = (Inr v', r') \<Longrightarrow>
     \<forall>s\<in>set (ldir_sizes L S (n - i) (unat offset)). s \<noteq> - 1 \<Longrightarrow>
     ldir_inv L S n v' r' \<and>
     unat (fst (snd (snd v'))) = unat offset
       + sum_list (map (\<lambda>s. sz_dir_index L + (unat s + 1)) (ldir_sizes L S (n - i) (unat offset)))"
proof (induction "n - i" arbitrary: i offset inode_len ret r)
  case 0
  from "0.prems"(1) have "i \<le> n"
    and e: "unat inode_len = unat offset + (n - i) * sz_dir_index L"
    by (simp_all add: ldir_inv_def)
  with "0.hyps" have i: "\<not> i < n" "n - i = 0"
    by simp_all
  from ldir_cond_inv [OF ok "0.prems"(1) n] i "0.prems"(2)
  have "v' = (i, offset, inode_len, ret)" "r' = r"
    by (simp_all add: ldir_loop.simps [of L "(i, offset, inode_len, ret)" r])
  with "0.prems"(1) e i show ?case
    by simp
next
  case (Suc k)
  let ?v = "(i, offset, inode_len, ret)"
  let ?s = "to_le32 (drop (unat offset + off_idx_size L) S)"
  from Suc.hyps(2) have i: "i < n" and k: "k = n - (i + 1)" and ni: "n - i = Suc k"
    by simp_all
  from ldir_cond_inv [OF ok Suc.prems(1) n] i
  have c: "ldir_cond L ?v r = (Inr True, r)"
    by simp
  with Suc.prems(2) obtain v1 r1 where b: "ldir_body L ?v r = (Inr v1, r1)"
    and l: "ldir_loop L v1 r1 = (Inr v', r')"
    by (auto simp: ldir_loop.simps [of L ?v r] split: prod.splits sum.splits)
  note bi = ldir_body_inv [OF ok Suc.prems(1) i b refl]
  obtain i1 offset1 inode_len1 ret1 where v1: "v1 = (i1, offset1, inode_len1, ret1)"
    by (cases v1) auto
  from bi(2) have i1: "i1 = i + 1"
    by (simp add: v1)
  from Suc.prems(3) have s: "?s \<noteq> - 1"
    by (simp add: ni Let_def)
  then have "?s + 1 \<noteq> 0"
    by (metis add.commute add_eq_0_iff)
  then have "unat (?s + 1) = unat ?s + 1"
    by (metis add_diff_cancel_right' unat_minus_one Suc_eq_plus1 unat_gt_0 Suc_pred)
  with bi(3) have o1: "unat offset1 = unat offset + sz_dir_index L + unat ?s + 1"
    by (simp add: v1)
  have sz: "ldir_sizes L S (n - i) (unat offset) = ?s # ldir_sizes L S (n - i1) (unat offset1)"
    by (simp add: ni Let_def i1 k o1)
  have "ldir_inv L S n v' r' \<and>
     unat (fst (snd (snd v'))) = unat offset1
       + sum_list (map (\<lambda>s. sz_dir_index L + (unat s + 1)) (ldir_sizes L S (n - i1) (unat offset1)))"
  proof (rule Suc.hyps(1))
    show "k = n - i1"
      by (simp add: k i1)
    show "ldir_inv L S n (i1, offset1, inode_len1, ret1) r1"
      using bi(1) by (simp add: v1)
    show "ldir_loop L (i1, offset1, inode_len1, ret1) r1 = (Inr v', r')"
      using l by (simp add: v1)
    show "\<forall>s\<in>set (ldir_sizes L S (n - i1) (unat offset1)). s \<noteq> - 1"
      using Suc.prems(3) by (simp add: sz)
  qed
  then show ?case
    by (simp add: sz o1)
qed


lemma type_ldir_facts:
  "type_ldir \<noteq> 0" "\<not> type_lsocket < type_ldir" "fixed_size L type_ldir = Some (sz_ldir L)"
  "type_ldir \<noteq> type_reg" "type_ldir \<noteq> type_symlink" "type_ldir \<noteq> type_lsymlink"
  "type_ldir \<noteq> type_lreg"
  by (simp_all add: fixed_size_def type_dir_def type_reg_def type_symlink_def type_blkdev_def
      type_chrdev_def type_fifo_def type_socket_def type_ldir_def type_lreg_def
      type_lsymlink_def type_lsocket_def)

lemma scan_inode_ldir:
  assumes ok: "layout_ok L" and inv: "reader_inv L r"
    and tag: "to_le16 (drop (off_inode_type L) (stream L r)) = type_ldir"
    and cnt: "i_count = to_le16 (drop (off_ldir_i_count L) (stream L r))"
    and nowrap: "\<forall>s\<in>set (ldir_sizes L (stream L r) (unat i_count) (sz_ldir L)). s \<noteq> - 1"
    and scan: "scan_inode L bsize blog r = (Inr (ret, inode_len), r')"
  shows "unat inode_len = ldir_total L (ldir_sizes L (stream L r) (unat i_count) (sz_ldir L))"
    and "inode_len \<le> buf_filled r'" and "stream L r' = stream L r" and "ret = bufp r'"
proof -
  let ?S = "stream L r"
  from ok have cap: "capacity L < 2 ^ 64" and base: "off_inode_type L + 2 \<le> sz_base L"
    and bl: "sz_base L \<le> sz_ldir L" and ic: "off_ldir_i_count L + 2 \<le> sz_ldir L"
    and big: "sz_ldir L + 65536 * sz_dir_index L < 2 ^ 64"
    by (simp_all add: layout_ok_def)
  from big have ldir64: "sz_ldir L < 2 ^ 64"
    by simp
  with bl have base64: "sz_base L < 2 ^ 64"
    by simp
  \<comment> \<open>line 164: the common header\<close>
  from scan obtain ret1 r1 where pk1: "peek L (of_nat (sz_base L)) r = (Inr ret1, r1)"
    and k1: "bindE (fetch16 L (ret1 + off_inode_type L)) (\<lambda>ty.
       let fixed = fixed_size L ty in
       if ty = 0 \<or> type_lsocket < ty then throw Invalid_inode_type
       else (case fixed of
          None \<Rightarrow> throw Undefined_uninit
        | Some n \<Rightarrow>
           bindE (peek L (of_nat n)) (\<lambda>ret.
           bindE (dynamic_size L bsize blog ret (of_nat n)) (\<lambda>inode_len.
           bindE (peek L inode_len) (\<lambda>ret.
           bindE (fetch16 L (ret + off_inode_type L)) (\<lambda>ty.
             if ty = type_ldir then
               bindE (ldir_loop L (0, of_nat (sz_ldir L), inode_len, ret))
                 (\<lambda>(i, offset, inode_len, ret). return (ret, inode_len))
             else return (ret, inode_len))))))) r1 = (Inr (ret, inode_len), r')"
    unfolding scan_inode_def by (rule bindE_Inr)
  note p1 = peek_nat [OF pk1 cap inv base64]
  have t1: "fetch16 L (ret1 + off_inode_type L) r1 = (Inr type_ldir, r1)"
    using fetch16_stream [OF p1(3), of "off_inode_type L"] p1 base tag by simp
  \<comment> \<open>line 207: the structure of the type\<close>
  from k1 obtain ret2 r2 where pk2: "peek L (of_nat (sz_ldir L)) r1 = (Inr ret2, r2)"
    and k2: "bindE (dynamic_size L bsize blog ret2 (of_nat (sz_ldir L))) (\<lambda>inode_len.
           bindE (peek L inode_len) (\<lambda>ret.
           bindE (fetch16 L (ret + off_inode_type L)) (\<lambda>ty.
             if ty = type_ldir then
               bindE (ldir_loop L (0, of_nat (sz_ldir L), inode_len, ret))
                 (\<lambda>(i, offset, inode_len, ret). return (ret, inode_len))
             else return (ret, inode_len)))) r2 = (Inr (ret, inode_len), r')"
    by (auto simp: bindE_def t1 type_ldir_facts Let_def split: prod.splits sum.splits)
  note p2 = peek_nat [OF pk2 cap p1(3) ldir64]
  have t2: "fetch16 L (ret2 + off_inode_type L) r2 = (Inr type_ldir, r2)"
    using fetch16_stream [OF p2(3), of "off_inode_type L"] p1 p2 base bl tag by simp
  have c2: "fetch16 L (ret2 + off_ldir_i_count L) r2 = (Inr i_count, r2)"
    using fetch16_stream [OF p2(3), of "off_ldir_i_count L"] p1 p2 ic cnt by simp
  \<comment> \<open>lines 235-246: the indexes are at least their sub-headers\<close>
  let ?len0 = "of_nat (sz_ldir L) + ucast i_count * of_nat (sz_dir_index L) :: size_t"
  have d2: "dynamic_size L bsize blog ret2 (of_nat (sz_ldir L)) r2 = (Inr ?len0, r2)"
    by (simp add: dynamic_size_def bindE_def t2 c2 type_ldir_facts return_def)
  \<comment> \<open>line 249\<close>
  from k2 obtain ret3 r3 where pk3: "peek L ?len0 r2 = (Inr ret3, r3)"
    and k3: "bindE (fetch16 L (ret3 + off_inode_type L)) (\<lambda>ty.
             if ty = type_ldir then
               bindE (ldir_loop L (0, of_nat (sz_ldir L), ?len0, ret3))
                 (\<lambda>(i, offset, inode_len, ret). return (ret, inode_len))
             else return (ret3, ?len0)) r3 = (Inr (ret, inode_len), r')"
    by (auto simp: bindE_def d2 split: prod.splits sum.splits)
  note p3 = peek_ok [OF pk3 cap]
  from p3 p2 have inv3: "reader_inv L r3" and s3: "stream L r3 = ?S" and r3: "ret3 = bufp r3"
    and f3: "?len0 \<le> buf_filled r3"
    using p1 by simp_all
  have cnt3: "i_count = to_le16 (drop (off_ldir_i_count L) (stream L r3))"
    by (simp add: s3 cnt)
  have start: "ldir_inv L (stream L r3) (unat i_count) (0, of_nat (sz_ldir L), ?len0, bufp r3) r3"
    using ok inv3 refl f3 by (rule ldir_inv_start)
  then have "sz_ldir L \<le> unat ?len0" and ul: "unat (of_nat (sz_ldir L) :: size_t) = sz_ldir L"
    using ldir64 by (simp_all add: ldir_inv_def unat_of_nat_64)
  with f3 have "sz_ldir L \<le> unat (buf_filled r3)"
    by (simp add: word_le_nat_alt)
  with base bl have "off_inode_type L + 2 \<le> unat (buf_filled r3)"
    by simp
  from fetch16_stream [OF inv3 this]
  have t3: "fetch16 L (ret3 + off_inode_type L) r3 = (Inr type_ldir, r3)"
    by (simp add: r3 s3 tag)
  \<comment> \<open>lines 252-273: the loop\<close>
  from k3 have "bindE (ldir_loop L (0, of_nat (sz_ldir L), ?len0, ret3))
      (\<lambda>(i, offset, inode_len, ret). return (ret, inode_len)) r3 = (Inr (ret, inode_len), r')"
    by (simp add: bindE_known [of "fetch16 L (ret3 + off_inode_type L)" r3, OF t3])
  then obtain v rr where l0: "ldir_loop L (0, of_nat (sz_ldir L), ?len0, ret3) r3 = (Inr v, rr)"
    and fin0: "(case v of (i, offset, inode_len, ret) \<Rightarrow> return (ret, inode_len)) rr
      = (Inr (ret, inode_len), r')"
    by (rule bindE_Inr)
  obtain i offset il ret' where v: "v = (i, offset, il, ret')"
    by (cases v) auto
  from fin0 have ret: "ret = ret'" and "inode_len = il" "rr = r'"
    by (simp_all add: v return_def)
  with l0 have loop:
    "ldir_loop L (0, of_nat (sz_ldir L), ?len0, bufp r3) r3 = (Inr (i, offset, inode_len, ret'), r')"
    by (simp add: v r3)
  have n: "unat i_count = unat (to_le16 (drop (off_ldir_i_count L) ?S))"
    by (simp add: cnt)
  have "ldir_inv L ?S (unat i_count) (i, offset, inode_len, ret') r' \<and>
     unat (fst (snd (snd (i, offset, inode_len, ret')))) = unat (of_nat (sz_ldir L) :: size_t)
       + sum_list (map (\<lambda>s. sz_dir_index L + (unat s + 1))
           (ldir_sizes L ?S (unat i_count - 0) (unat (of_nat (sz_ldir L) :: size_t))))"
    using ok n start [unfolded s3] loop
  proof (rule ldir_loop_inv)
    show "\<forall>s\<in>set (ldir_sizes L ?S (unat i_count - 0) (unat (of_nat (sz_ldir L) :: size_t))). s \<noteq> - 1"
      using nowrap by (simp add: ul)
  qed
  then have fin: "ldir_inv L ?S (unat i_count) (i, offset, inode_len, ret') r'"
    and tot: "unat inode_len = ldir_total L (ldir_sizes L ?S (unat i_count) (sz_ldir L))"
    by (simp_all add: ul ldir_total_def)
  show "unat inode_len = ldir_total L (ldir_sizes L ?S (unat i_count) (sz_ldir L))"
    by (rule tot)
  from fin show "inode_len \<le> buf_filled r'" "stream L r' = ?S" "ret = bufp r'"
    by (simp_all add: ldir_inv_def ret)
qed


lemma length_ldir_sizes [simp]: "length (ldir_sizes L bs k off) = k"
  by (induction k arbitrary: off) (simp_all add: Let_def)

lemma wrap_stream: "stream squashfs4 (reader wrap_decoder) = wrap_record"
  by (simp add: stream_def buffered_def wrap_decoder_def InodeReader_new_def
      MetadataReader_new_def pending.simps mmap_read_le16_def mmap_read_array_def
      to_le16_def uncompressed_def wrap_record_def)

text \<open>
  Claim C5. \<^verbatim>\<open>read()\<close> is to advance the stream by the size of the \<^verbatim>\<open>ldir\<close>
  structure plus, for each index entry, the size of \<^verbatim>\<open>dir_index\<close> and \<open>size + 1\<close>
  name bytes (the comment of line 266 says that size is the length minus 1). The code computes
  \<^verbatim>\<open>idx->size + 1\<close> in 32 bits, so for a size field of \<open>2 ^ 32 - 1\<close> the sum wraps
  to 0: on an extended directory with one such entry \<^verbatim>\<open>read()\<close> returns and has
  advanced by \<open>40 + 12\<close> bytes, where the length of the record is
  \<open>40 + 12 + 2 ^ 32\<close>.
\<close>

theorem read_ldir_size_wraps:
  "reader_inv squashfs4 (reader wrap_decoder)
   \<and> to_le16 (drop 0 (stream squashfs4 (reader wrap_decoder))) = type_ldir
   \<and> to_le16 (drop 32 (stream squashfs4 (reader wrap_decoder))) = 1
   \<and> ldir_sizes squashfs4 (stream squashfs4 (reader wrap_decoder)) 1 40
       = [0xFFFFFFFF]
   \<and> ldir_total squashfs4 [0xFFFFFFFF] = 40 + 12 + 4294967296
   \<and> fst (read squashfs4 wrap_decoder) = Inr 0
   \<and> bufp (reader (snd (read squashfs4 wrap_decoder))) = 40 + 12
   \<and> stream squashfs4 (reader (snd (read squashfs4 wrap_decoder)))
       = drop (40 + 12) (stream squashfs4 (reader wrap_decoder))
   \<and> inode_num (snd (read squashfs4 wrap_decoder)) = 1"
proof -
  have inv: "reader_inv squashfs4 (reader wrap_decoder)"
    by (simp add: reader_inv_def wrap_decoder_def InodeReader_new_def MetadataReader_new_def)
  have tag: "to_le16 (drop 0 (stream squashfs4 (reader wrap_decoder)))
      = type_ldir"
    by (simp add: wrap_stream wrap_record_def to_le16_def type_ldir_def)
  have cnt: "to_le16 (drop 32 (stream squashfs4 (reader wrap_decoder))) = 1"
    by (simp add: wrap_stream wrap_record_def to_le16_def)
  have sz: "ldir_sizes squashfs4 (stream squashfs4 (reader wrap_decoder)) 1 40
      = [0xFFFFFFFF]"
    unfolding wrap_stream by (simp add: Let_def squashfs4_def wrap_record_def to_le32_def)
  have tot: "ldir_total squashfs4 [0xFFFFFFFF] = 40 + 12 + 4294967296"
    by (simp add: ldir_total_def squashfs4_def)
  have rd: "fst (read squashfs4 wrap_decoder) = Inr 0"
    by (simp add: wrap_decoder_def wrap_record_def eval_defs ldir_loop.simps ldir_cond_def
        ldir_body_def Let_def nth_append)
  have bp: "bufp (reader (snd (read squashfs4 wrap_decoder))) = 40 + 12"
    by (simp add: wrap_decoder_def wrap_record_def eval_defs ldir_loop.simps ldir_cond_def
        ldir_body_def Let_def nth_append)
  have n: "inode_num (snd (read squashfs4 wrap_decoder)) = 1"
    by (simp add: wrap_decoder_def wrap_record_def eval_defs ldir_loop.simps ldir_cond_def
        ldir_body_def Let_def nth_append)
  have st: "stream squashfs4 (reader (snd (read squashfs4 wrap_decoder)))
       = drop (40 + 12) (stream squashfs4 (reader wrap_decoder))"
    unfolding wrap_stream
    by (simp add: wrap_decoder_def wrap_record_def eval_defs ldir_loop.simps ldir_cond_def
        ldir_body_def Let_def nth_append stream_def buffered_def pending.simps)
  from inv tag cnt sz tot rd bp st n show ?thesis
    by (intro conjI)
qed

text \<open>
  Where no size field is \<open>2 ^ 32 - 1\<close> the length is as stated. Let the logical
  stream at the cursor hold an extended-directory inode whose \<^verbatim>\<open>i_count\<close> index
  entries have the size fields \<open>sizes\<close>, none of them \<open>2 ^ 32 - 1\<close>. When \<^verbatim>\<open>read()\<close>
  returns, it has advanced the stream by \<open>ldir_total\<close>: the size of the \<^verbatim>\<open>ldir\<close>
  structure plus, for each entry, the size of \<^verbatim>\<open>dir_index\<close> and \<open>size + 1\<close> name
  bytes. The cursor is that far past the returned inode and the index has grown
  by one.
\<close>

theorem read_ldir_length:
  assumes ok: "layout_ok L" and inv: "reader_inv L (reader d)"
    and tag: "to_le16 (drop (off_inode_type L) (stream L (reader d))) = type_ldir"
    and cnt: "i_count = to_le16 (drop (off_ldir_i_count L) (stream L (reader d)))"
    and sizes: "sizes = ldir_sizes L (stream L (reader d)) (unat i_count) (sz_ldir L)"
    and nowrap: "\<forall>s\<in>set sizes. s \<noteq> - 1"
    and rd: "read L d = (Inr ret, d')"
  shows "length sizes = unat i_count
    \<and> stream L (reader d') = drop (ldir_total L sizes) (stream L (reader d))
    \<and> bufp (reader d') = ret + ldir_total L sizes
    \<and> inode_num d' = inode_num d + 1"
proof -
  from rd obtain inode_len r1 where
    scan: "scan_inode L (block_size d) (block_log d) (reader d) = (Inr (ret, inode_len), r1)"
    and d': "d' = d\<lparr> reader := snd (seek inode_len r1), inode_num := inode_num d + 1 \<rparr>"
    by (auto simp: read_def seek_def split: if_splits prod.splits sum.splits)
  from nowrap have nw: "\<forall>s\<in>set (ldir_sizes L (stream L (reader d)) (unat i_count) (sz_ldir L)). s \<noteq> - 1"
    by (simp add: sizes)
  note sc = scan_inode_ldir [OF ok inv tag cnt nw scan]
  from sc(1) have tot: "unat inode_len = ldir_total L sizes"
    by (simp add: sizes)
  from seek_stream(2) [OF sc(2), of L]
  have "stream L (reader d') = drop (ldir_total L sizes) (stream L (reader d))"
    by (simp add: d' tot sc(3))
  moreover have "bufp (reader d') = ret + ldir_total L sizes"
    by (simp add: d' seek_def sc(4) tot)
  ultimately show ?thesis
    by (simp add: d' sizes)
qed

lemma length_ldir_record: "length ldir_record = 280"
  by (simp add: ldir_record_def)

lemma ldir_stream: "stream squashfs4 (reader ldir_decoder) = ldir_record"
  by (simp add: stream_def buffered_def ldir_decoder_def InodeReader_new_def
      MetadataReader_new_def pending.simps mmap_read_le16_def mmap_read_array_def
      to_le16_def uncompressed_def ldir_record_def)

lemma ldir_record_sizes: "ldir_sizes squashfs4 ldir_record 3 40 = [0, 1, 200]"
  by (simp add: numeral_3_eq_3 Let_def squashfs4_def ldir_record_def to_le32_def)

lemma ldir_read: "fst (read squashfs4 ldir_decoder) = Inr 0"
  by (simp add: ldir_decoder_def ldir_record_def eval_defs ldir_loop.simps ldir_cond_def
      ldir_body_def Let_def nth_append)


lemma squashfs4_ok: "layout_ok squashfs4"
  by (simp add: layout_ok_def capacity_def squashfs4_def)

theorem read_ldir_length_witness:
  "\<exists>d'. layout_ok squashfs4 \<and> reader_inv squashfs4 (reader ldir_decoder)
     \<and> to_le16 (drop 0 (stream squashfs4 (reader ldir_decoder))) = type_ldir
     \<and> to_le16 (drop 32 (stream squashfs4 (reader ldir_decoder))) = 3
     \<and> ldir_sizes squashfs4 (stream squashfs4 (reader ldir_decoder)) 3 40 = [0, 1, 200]
     \<and> read squashfs4 ldir_decoder = (Inr 0, d')
     \<and> ldir_total squashfs4 [0, 1, 200] = 40 + 3 * 12 + 1 + 2 + 201
     \<and> stream squashfs4 (reader d') = drop 280 (stream squashfs4 (reader ldir_decoder))
     \<and> bufp (reader d') = 280
     \<and> inode_num d' = 1"
proof -
  obtain d' where rd: "read squashfs4 ldir_decoder = (Inr 0, d')"
    using ldir_read by (cases "read squashfs4 ldir_decoder") auto
  have inv: "reader_inv squashfs4 (reader ldir_decoder)"
    by (simp add: reader_inv_def ldir_decoder_def InodeReader_new_def MetadataReader_new_def)
  have tag0: "to_le16 (drop 0 (stream squashfs4 (reader ldir_decoder))) = type_ldir"
    by (simp add: ldir_stream ldir_record_def to_le16_def type_ldir_def)
  then have tag: "to_le16 (drop (off_inode_type squashfs4) (stream squashfs4 (reader ldir_decoder)))
      = type_ldir"
    by (simp add: squashfs4_def)
  have cnt0: "to_le16 (drop 32 (stream squashfs4 (reader ldir_decoder))) = 3"
    by (simp add: ldir_stream ldir_record_def to_le16_def)
  then have cnt: "3 = to_le16 (drop (off_ldir_i_count squashfs4) (stream squashfs4 (reader ldir_decoder)))"
    by (simp add: squashfs4_def)
  have sz0: "ldir_sizes squashfs4 (stream squashfs4 (reader ldir_decoder)) 3 40 = [0, 1, 200]"
    by (simp only: ldir_stream ldir_record_sizes)
  then have sizes: "[0, 1, 200] = ldir_sizes squashfs4 (stream squashfs4 (reader ldir_decoder))
      (unat (3 :: le16)) (sz_ldir squashfs4)"
    by (simp add: squashfs4_def)
  have nowrap: "\<forall>s\<in>set [0, 1, 200 :: le32]. s \<noteq> - 1"
    by simp
  have tot: "ldir_total squashfs4 [0, 1, 200] = 280"
    by (simp add: ldir_total_def squashfs4_def)
  have n0: "inode_num ldir_decoder = 0"
    by (simp add: ldir_decoder_def InodeReader_new_def)
  from read_ldir_length [OF squashfs4_ok inv tag cnt sizes nowrap rd]
  have "stream squashfs4 (reader d') = drop 280 (stream squashfs4 (reader ldir_decoder))"
    "bufp (reader d') = 280" "inode_num d' = 1"
    by (simp_all add: tot n0)
  with squashfs4_ok inv tag0 cnt0 sz0 rd tot show ?thesis
    by simp
qed

subsection \<open>The directory-index loop as read() enters it\<close>

lemma bindE_assoc: "bindE (bindE m k) h = bindE m (\<lambda>x. bindE (k x) h)"
  by (rule ext) (simp add: bindE_def split: prod.splits sum.splits)

lemma bindE_return: "bindE (return x) k = k x"
  by (rule ext) (simp add: bindE_def return_def)

lemma bindE_throw: "bindE (throw e) k = throw e"
  by (rule ext) (simp add: bindE_def throw_def)

lemma scan_inode_split:
  "scan_inode L bsize blog =
     bindE (scan_sized L bsize blog) (\<lambda>(ret, inode_len).
       bindE (fetch16 L (ret + off_inode_type L)) (\<lambda>ty.
         if ty = type_ldir then
           bindE (ldir_loop L (0, of_nat (sz_ldir L), inode_len, ret))
             (\<lambda>(i, offset, inode_len, ret). return (ret, inode_len))
         else return (ret, inode_len)))"
  unfolding scan_inode_def scan_sized_def bindE_assoc
  by (intro arg_cong2 [where f = bindE] refl ext)
    (simp add: Let_def bindE_throw bindE_assoc bindE_return split: option.splits)

lemma ldir_loop_iter:
  "ldir_iter L k v r = Some (v', r') \<Longrightarrow> ldir_loop L v r = ldir_loop L v' r'"
proof (induction k arbitrary: v' r')
  case 0
  then show ?case by simp
next
  case (Suc k)
  from Suc.prems obtain v1 r1 r2 where it: "ldir_iter L k v r = Some (v1, r1)"
    and c: "ldir_cond L v1 r1 = (Inr True, r2)" and b: "ldir_body L v1 r2 = (Inr v', r')"
    by (auto split: option.splits prod.splits sum.splits bool.splits)
  have "ldir_loop L v1 r1 = ldir_loop L v' r'"
    by (subst ldir_loop.simps) (simp add: c b)
  with Suc.IH [OF it] show ?case
    by simp
qed


lemma scan_sized_ldir:
  assumes ok: "layout_ok L" and inv: "reader_inv L r"
    and tag: "to_le16 (drop (off_inode_type L) (stream L r)) = type_ldir"
    and cnt: "i_count = to_le16 (drop (off_ldir_i_count L) (stream L r))"
    and pre: "scan_sized L bsize blog r = (Inr (ret0, inode_len0), r0)"
  shows "ldir_inv L (stream L r) (unat i_count) (0, of_nat (sz_ldir L), inode_len0, ret0) r0"
    and "fetch16 L (ret0 + off_inode_type L) r0 = (Inr type_ldir, r0)"
    and "inode_len0 = of_nat (sz_ldir L) + ucast i_count * of_nat (sz_dir_index L)"
proof -
  let ?S = "stream L r"
  from ok have cap: "capacity L < 2 ^ 64" and base: "off_inode_type L + 2 \<le> sz_base L"
    and bl: "sz_base L \<le> sz_ldir L" and ic: "off_ldir_i_count L + 2 \<le> sz_ldir L"
    and big: "sz_ldir L + 65536 * sz_dir_index L < 2 ^ 64"
    by (simp_all add: layout_ok_def)
  from big have ldir64: "sz_ldir L < 2 ^ 64"
    by simp
  with bl have base64: "sz_base L < 2 ^ 64"
    by simp
  \<comment> \<open>line 164: the common header\<close>
  from pre obtain ret1 r1 where pk1: "peek L (of_nat (sz_base L)) r = (Inr ret1, r1)"
    and k1: "bindE (fetch16 L (ret1 + off_inode_type L)) (\<lambda>ty.
       let fixed = fixed_size L ty in
       if ty = 0 \<or> type_lsocket < ty then throw Invalid_inode_type
       else (case fixed of
          None \<Rightarrow> throw Undefined_uninit
        | Some n \<Rightarrow>
           bindE (peek L (of_nat n)) (\<lambda>ret.
           bindE (dynamic_size L bsize blog ret (of_nat n)) (\<lambda>inode_len.
           bindE (peek L inode_len) (\<lambda>ret. return (ret, inode_len)))))) r1
       = (Inr (ret0, inode_len0), r0)"
    unfolding scan_sized_def by (rule bindE_Inr)
  note p1 = peek_nat [OF pk1 cap inv base64]
  have t1: "fetch16 L (ret1 + off_inode_type L) r1 = (Inr type_ldir, r1)"
    using fetch16_stream [OF p1(3), of "off_inode_type L"] p1 base tag by simp
  \<comment> \<open>line 207: the structure of the type\<close>
  from k1 have "bindE (peek L (of_nat (sz_ldir L))) (\<lambda>ret.
           bindE (dynamic_size L bsize blog ret (of_nat (sz_ldir L))) (\<lambda>inode_len.
           bindE (peek L inode_len) (\<lambda>ret. return (ret, inode_len)))) r1
       = (Inr (ret0, inode_len0), r0)"
    by (simp add: bindE_known [of "fetch16 L (ret1 + off_inode_type L)" r1, OF t1]
        type_ldir_facts Let_def)
  then obtain ret2 r2 where pk2: "peek L (of_nat (sz_ldir L)) r1 = (Inr ret2, r2)"
    and k2: "bindE (dynamic_size L bsize blog ret2 (of_nat (sz_ldir L))) (\<lambda>inode_len.
           bindE (peek L inode_len) (\<lambda>ret. return (ret, inode_len))) r2
       = (Inr (ret0, inode_len0), r0)"
    by (rule bindE_Inr)
  note p2 = peek_nat [OF pk2 cap p1(3) ldir64]
  have t2: "fetch16 L (ret2 + off_inode_type L) r2 = (Inr type_ldir, r2)"
    using fetch16_stream [OF p2(3), of "off_inode_type L"] p1 p2 base bl tag by simp
  have c2: "fetch16 L (ret2 + off_ldir_i_count L) r2 = (Inr i_count, r2)"
    using fetch16_stream [OF p2(3), of "off_ldir_i_count L"] p1 p2 ic cnt by simp
  \<comment> \<open>lines 235-246: the indexes are at least their sub-headers\<close>
  let ?len0 = "of_nat (sz_ldir L) + ucast i_count * of_nat (sz_dir_index L) :: size_t"
  have d2: "dynamic_size L bsize blog ret2 (of_nat (sz_ldir L)) r2 = (Inr ?len0, r2)"
    by (simp add: dynamic_size_def bindE_def t2 c2 type_ldir_facts return_def)
  \<comment> \<open>line 249\<close>
  from k2 have "bindE (peek L ?len0) (\<lambda>ret. return (ret, ?len0)) r2
      = (Inr (ret0, inode_len0), r0)"
    by (simp add: bindE_known [of "dynamic_size L bsize blog ret2 (of_nat (sz_ldir L))" r2, OF d2])
  then obtain ret3 r3 where pk3: "peek L ?len0 r2 = (Inr ret3, r3)"
    and k3: "return (ret3, ?len0) r3 = (Inr (ret0, inode_len0), r0)"
    by (rule bindE_Inr)
  from k3 have e: "ret0 = ret3" "inode_len0 = ?len0" "r0 = r3"
    by (simp_all add: return_def)
  show "inode_len0 = ?len0"
    by (rule e)
  note p3 = peek_ok [OF pk3 cap]
  from p3 p2 have inv3: "reader_inv L r3" and s3: "stream L r3 = ?S" and r3: "ret3 = bufp r3"
    and f3: "?len0 \<le> buf_filled r3"
    using p1 by simp_all
  have start: "ldir_inv L (stream L r3) (unat i_count) (0, of_nat (sz_ldir L), ?len0, bufp r3) r3"
    using ok inv3 refl f3 by (rule ldir_inv_start)
  then show "ldir_inv L ?S (unat i_count) (0, of_nat (sz_ldir L), inode_len0, ret0) r0"
    by (simp add: e r3 s3)
  from start have "sz_ldir L \<le> unat ?len0"
    using ldir64 by (simp add: ldir_inv_def unat_of_nat_64)
  with f3 have "sz_ldir L \<le> unat (buf_filled r3)"
    by (simp add: word_le_nat_alt)
  with base bl have "off_inode_type L + 2 \<le> unat (buf_filled r3)"
    by simp
  from fetch16_stream [OF inv3 this]
  show "fetch16 L (ret0 + off_inode_type L) r0 = (Inr type_ldir, r0)"
    by (simp add: e r3 s3 tag)
qed

text \<open>
  Claim C10. Let \<^verbatim>\<open>read()\<close> find an extended directory at the cursor, and let
  lines 164-249 (\<open>scan_sized\<close>) return: \<^verbatim>\<open>inode_len\<close> is then the size of the \<^verbatim>\<open>ldir\<close>
  structure plus \<^verbatim>\<open>i_count\<close> sub-headers, and the loop is entered with \<open>offset\<close> the
  size of the structure. Take the state in which any pass \<open>i < i_count\<close> of the
  loop begins (\<open>ldir_iter\<close>). The rest of \<^verbatim>\<open>read()\<close> is the loop run from that
  state, then the \<^verbatim>\<open>seek\<close>. In that state \<open>offset + sizeof(dir_index) \<le> inode_len\<close>
  holds and \<^verbatim>\<open>inode_len\<close> bytes are valid at the pointer, so the four bytes of the
  size field of entry \<open>i\<close> lie inside the valid bytes: the test of the loop
  holds, and the field read is the one the logical stream holds at \<open>offset\<close>.
\<close>

theorem ldir_size_field_peeked:
  assumes ok: "layout_ok L" and inv: "reader_inv L (reader d)"
    and idx: "inode_num d < no_inodes d + 1"
    and tag: "to_le16 (drop (off_inode_type L) (stream L (reader d))) = type_ldir"
    and cnt: "i_count = to_le16 (drop (off_ldir_i_count L) (stream L (reader d)))"
    and pre: "scan_sized L (block_size d) (block_log d) (reader d) = (Inr (ret0, inode_len0), r0)"
    and at: "ldir_iter L k (0, of_nat (sz_ldir L), inode_len0, ret0) r0
               = Some ((i, offset, inode_len, ret), r)"
    and it: "i < unat i_count"
  shows "inode_len0 = of_nat (sz_ldir L) + ucast i_count * of_nat (sz_dir_index L)
    \<and> read L d =
        (case bindE (ldir_loop L (i, offset, inode_len, ret))
                (\<lambda>(i, offset, inode_len, ret). return (ret, inode_len)) r of
           (Inl e, r') \<Rightarrow> (Inl e, d\<lparr> reader := r' \<rparr>)
         | (Inr (ret', len'), r') \<Rightarrow>
             (Inr ret', d\<lparr> reader := snd (seek len' r'), inode_num := inode_num d + 1 \<rparr>))
    \<and> i = k
    \<and> unat offset + sz_dir_index L \<le> unat inode_len
    \<and> inode_len \<le> buf_filled r \<and> ret = bufp r
    \<and> ret + unat offset + off_idx_size L + 4 \<le> bufp r + unat (buf_filled r)
    \<and> ldir_cond L (i, offset, inode_len, ret) r = (Inr True, r)
    \<and> fetch32 L (ret + unat offset + off_idx_size L) r
        = (Inr (to_le32 (drop (unat offset + off_idx_size L) (stream L (reader d)))), r)"
proof -
  let ?S = "stream L (reader d)" and ?n = "unat i_count"
  let ?fin = "\<lambda>(i, offset, inode_len, ret). return (ret, inode_len)
      :: (MetadataReader, nat \<times> size_t) prog"
  note ss = scan_sized_ldir [OF ok inv tag cnt pre]
  have n: "?n = unat (to_le16 (drop (off_ldir_i_count L) ?S))"
    by (simp add: cnt)
  from ldir_iter_inv [OF ok n ss(1) at]
  have inv': "ldir_inv L ?S ?n (i, offset, inode_len, ret) r" and k: "i = k"
    by auto
  have "ldir_loop L (0, of_nat (sz_ldir L), inode_len0, ret0) r0
      = ldir_loop L (i, offset, inode_len, ret) r"
    using at by (rule ldir_loop_iter)
  then have "bindE (ldir_loop L (0, of_nat (sz_ldir L), inode_len0, ret0)) ?fin r0
      = bindE (ldir_loop L (i, offset, inode_len, ret)) ?fin r"
    by (simp add: bindE_def)
  then have sc: "scan_inode L (block_size d) (block_log d) (reader d)
      = bindE (ldir_loop L (i, offset, inode_len, ret)) ?fin r"
    by (simp add: scan_inode_split
        bindE_known [of "scan_sized L (block_size d) (block_log d)" "reader d", OF pre]
        bindE_known [of "fetch16 L (ret0 + off_inode_type L)" r0, OF ss(2)])
  have "\<not> no_inodes d + 1 \<le> inode_num d"
    using idx by (simp add: not_le)
  then have rd: "read L d =
        (case bindE (ldir_loop L (i, offset, inode_len, ret)) ?fin r of
           (Inl e, r') \<Rightarrow> (Inl e, d\<lparr> reader := r' \<rparr>)
         | (Inr (ret', len'), r') \<Rightarrow>
             (Inr ret', d\<lparr> reader := snd (seek len' r'), inode_num := inode_num d + 1 \<rparr>))"
    by (simp add: read_def sc seek_def split: prod.splits sum.splits)
  note fi = ldir_fetch_inv [OF ok inv' it refl]
  from inv' have r: "ret = bufp r" "inode_len \<le> buf_filled r"
    by (simp_all add: ldir_inv_def)
  from ldir_cond_inv [OF ok inv' n] it
  have c: "ldir_cond L (i, offset, inode_len, ret) r = (Inr True, r)"
    by simp
  from fi(2) have hd: "unat offset + sz_dir_index L \<le> unat inode_len"
    by simp
  from fi(3) r have fld: "ret + unat offset + off_idx_size L + 4 \<le> bufp r + unat (buf_filled r)"
    by simp
  from ss(3) rd k hd r fld c fi(1) show ?thesis
    by (intro conjI)
qed

lemma ldir_scan_sized:
  "scan_sized squashfs4 (block_size ldir_decoder) (block_log ldir_decoder) (reader ldir_decoder)
     = (Inr (0, 76), ldir_entry)"
  by (simp add: ldir_entry_def scan_sized_def ldir_decoder_def ldir_record_def eval_defs
      Let_def nth_append)

lemma ldir_entry_step:
  "ldir_iter squashfs4 (Suc 0) (0, 40, 76, 0) ldir_entry = Some ((1, 53, 77, 0), ldir_entry)"
proof -
  have "ldir_cond squashfs4 (0, 40, 76, 0) ldir_entry = (Inr True, ldir_entry)"
    by (simp add: ldir_cond_def ldir_entry_def scan_sized_def ldir_decoder_def ldir_record_def
        eval_defs Let_def nth_append)
  moreover have "ldir_body squashfs4 (0, 40, 76, 0) ldir_entry
      = (Inr (1, 53, 77, 0), ldir_entry)"
    by (simp add: ldir_body_def ldir_entry_def scan_sized_def ldir_decoder_def ldir_record_def
        eval_defs Let_def nth_append)
  ultimately show ?thesis
    by simp
qed

theorem ldir_size_field_peeked_witness:
  "layout_ok squashfs4 \<and> reader_inv squashfs4 (reader ldir_decoder)
   \<and> inode_num ldir_decoder < no_inodes ldir_decoder + 1
   \<and> to_le16 (drop 0 (stream squashfs4 (reader ldir_decoder))) = type_ldir
   \<and> to_le16 (drop 32 (stream squashfs4 (reader ldir_decoder))) = 3
   \<and> scan_sized squashfs4 (block_size ldir_decoder) (block_log ldir_decoder) (reader ldir_decoder)
       = (Inr (0, 76), ldir_entry)
   \<and> ldir_iter squashfs4 (Suc 0) (0, 40, 76, 0) ldir_entry = Some ((1, 53, 77, 0), ldir_entry)
   \<and> read squashfs4 ldir_decoder =
        (case bindE (ldir_loop squashfs4 (1, 53, 77, 0))
                (\<lambda>(i, offset, inode_len, ret). return (ret, inode_len)) ldir_entry of
           (Inl e, r') \<Rightarrow> (Inl e, ldir_decoder\<lparr> reader := r' \<rparr>)
         | (Inr (ret', len'), r') \<Rightarrow>
             (Inr ret', ldir_decoder\<lparr> reader := snd (seek len' r'),
                inode_num := inode_num ldir_decoder + 1 \<rparr>))
   \<and> unat (53 :: size_t) + sz_dir_index squashfs4 \<le> unat (77 :: size_t)
   \<and> (77 :: size_t) \<le> buf_filled ldir_entry
   \<and> 0 + unat (53 :: size_t) + off_idx_size squashfs4 + 4 \<le> bufp ldir_entry + unat (buf_filled ldir_entry)
   \<and> ldir_cond squashfs4 (1, 53, 77, 0) ldir_entry = (Inr True, ldir_entry)
   \<and> fetch32 squashfs4 (0 + unat (53 :: size_t) + off_idx_size squashfs4) ldir_entry = (Inr 1, ldir_entry)"
proof -
  have inv: "reader_inv squashfs4 (reader ldir_decoder)"
    by (simp add: reader_inv_def ldir_decoder_def InodeReader_new_def MetadataReader_new_def)
  have idx: "inode_num ldir_decoder < no_inodes ldir_decoder + 1"
    by (simp add: ldir_decoder_def InodeReader_new_def)
  have tag0: "to_le16 (drop 0 (stream squashfs4 (reader ldir_decoder))) = type_ldir"
    by (simp add: ldir_stream ldir_record_def to_le16_def type_ldir_def)
  then have tag: "to_le16 (drop (off_inode_type squashfs4) (stream squashfs4 (reader ldir_decoder)))
      = type_ldir"
    by (simp add: squashfs4_def)
  have cnt0: "to_le16 (drop 32 (stream squashfs4 (reader ldir_decoder))) = 3"
    by (simp add: ldir_stream ldir_record_def to_le16_def)
  then have cnt: "3 = to_le16 (drop (off_ldir_i_count squashfs4) (stream squashfs4 (reader ldir_decoder)))"
    by (simp add: squashfs4_def)
  have at: "ldir_iter squashfs4 (Suc 0) (0, of_nat (sz_ldir squashfs4), 76, 0)
      ldir_entry = Some ((1, 53, 77, 0), ldir_entry)"
    using ldir_entry_step by (simp add: squashfs4_def)
  have it: "1 < unat (3 :: le16)"
    by simp
  have o: "unat (53 :: size_t) + off_idx_size squashfs4 = 61"
    by (simp add: squashfs4_def)
  have sz: "to_le32 (drop (unat (53 :: size_t) + off_idx_size squashfs4)
      (stream squashfs4 (reader ldir_decoder))) = 1"
    unfolding o ldir_stream by (simp add: ldir_record_def to_le32_def)
  note th = ldir_size_field_peeked [OF squashfs4_ok inv idx tag cnt ldir_scan_sized at it]
  from th have f: "fetch32 squashfs4 (0 + unat (53 :: size_t) + off_idx_size squashfs4) ldir_entry
      = (Inr 1, ldir_entry)"
    by (simp only: sz)
  show ?thesis
    apply (insert th squashfs4_ok inv idx tag0 cnt0 ldir_scan_sized ldir_entry_step f)
    apply (elim conjE)
    apply (intro conjI; assumption)
    done
qed

end
